theory Spec2Isabelle
  imports Main "HOL-Library.Word"
begin

section \<open>The allocator strategies of mem.c\<close>

text \<open>
  A shallow embedding of \<^verbatim>\<open>mem.c\<close> / \<^verbatim>\<open>mem.h\<close>: the three allocation strategies
  (\<^verbatim>\<open>BasicAllocator\<close>, \<^verbatim>\<open>SafeAllocator\<close>, \<^verbatim>\<open>DebugAllocator\<close>), the leak report and
  \<^verbatim>\<open>xstrdup\<close>. The C globals and the part of memory the code touches are one record
  that every function takes and returns; \<^verbatim>\<open>panic\<close> (which exits the process) and
  undefined behaviour are error values.
\<close>

subsection \<open>Data model\<close>

text \<open>
  An LP64 target: \<^verbatim>\<open>size_t\<close> and pointers are 64-bit words, arithmetic on them wraps,
  the null pointer is the word 0, and \<^verbatim>\<open>sizeof(DebugHeader)\<close> is 32 (two \<^verbatim>\<open>size_t\<close> and
  two pointers).
\<close>

type_synonym size_t = "64 word"
type_synonym addr = "64 word"

abbreviation NULL :: addr where
  "NULL \<equiv> 0"

definition sizeof_DebugHeader :: size_t where
  "sizeof_DebugHeader = 32"

text \<open>\<^verbatim>\<open>struct DebugHeader\<close>; the fields \<^verbatim>\<open>size\<close>, \<^verbatim>\<open>next\<close> and \<^verbatim>\<open>prev\<close> carry a suffix.\<close>

record DebugHeader =
  size_h :: size_t
  allocNumber :: size_t
  next_h :: addr
  prev_h :: addr

text \<open>
  The outcome of a call that does not return normally: \<^verbatim>\<open>panic(msg)\<close> prints
  \<^verbatim>\<open>panic in <file>:<line>: <msg>\<close> and calls \<^verbatim>\<open>exit(1)\<close> (the only use is line 37 of
  \<^verbatim>\<open>mem.c\<close>); \<open>Undefined\<close> stands for undefined behaviour of the C program (an access
  through a pointer that addresses no live object of the right type, or \<^verbatim>\<open>free\<close> of an
  address that is no live block).
\<close>

datatype error = Panic nat string | Undefined

text \<open>
  The program state: the three static variables of \<^verbatim>\<open>mem.c\<close>, and memory.
  \<open>blocks\<close> is the state of the C library's allocator (base address and byte size of
  every live block); \<open>hdr\<close> is memory read at type \<^verbatim>\<open>DebugHeader\<close> (the header objects
  currently stored, by address); \<open>bytes\<close> is memory read at type \<^verbatim>\<open>char\<close>; \<open>stderr\<close> is
  the text written to the diagnostic stream so far.
\<close>

record cstate =
  dbgHead :: addr
  debugBytesAlive :: size_t
  debugAllocCount :: size_t
  hdr :: "addr \<rightharpoonup> DebugHeader"
  blocks :: "addr \<rightharpoonup> size_t"
  bytes :: "addr \<rightharpoonup> char"
  stderr :: string

text \<open>Program start: the statics are zero-initialised, nothing is allocated.\<close>

definition init_state :: cstate where
  "init_state = \<lparr>dbgHead = NULL, debugBytesAlive = 0, debugAllocCount = 0,
     hdr = Map.empty, blocks = Map.empty, bytes = Map.empty, stderr = []\<rparr>"

subsection \<open>The C library allocator\<close>

text \<open>
  \<^verbatim>\<open>malloc\<close>, \<^verbatim>\<open>free\<close> and \<^verbatim>\<open>realloc\<close> are the environment. Where the library chooses
  (the address of a block, success or failure), the choice is the last argument \<open>r\<close> of
  the model: \<open>r = NULL\<close> is the library answering with a null pointer, any other \<open>r\<close> is
  the base address of the block it hands out. ISO C leaves a request of size 0
  implementation-defined (a null pointer or a block that must not be accessed); both
  answers are inputs of the model.
\<close>

definition malloc :: "cstate \<Rightarrow> size_t \<Rightarrow> addr \<Rightarrow> error + (addr \<times> cstate)" where
  "malloc st n r =
     (if r = NULL then Inr (NULL, st)
      else Inr (r, st\<lparr>blocks := (blocks st)(r \<mapsto> n)\<rparr>))"

definition free :: "cstate \<Rightarrow> addr \<Rightarrow> error + cstate" where
  "free st p =
     (if p = NULL then Inr st
      else if blocks st p = None then Inl Undefined
      else Inr (st\<lparr>blocks := (blocks st)(p := None), hdr := (hdr st)(p := None)\<rparr>))"

text \<open>
  \<^verbatim>\<open>realloc(p, n)\<close>: with a null \<open>p\<close> it is \<^verbatim>\<open>malloc(n)\<close>. Otherwise a null answer
  leaves the old block alone when \<open>n \<noteq> 0\<close> (failure) and has released it when \<open>n = 0\<close>
  (as glibc does); an answer \<open>r \<noteq> NULL\<close> is the block's new base address (\<open>r = p\<close>:
  resized in place), the old block is gone and its contents, up to the smaller of the
  two sizes, are at \<open>r\<close>: the header object if both blocks can hold one, and the bytes.
\<close>

definition realloc :: "cstate \<Rightarrow> addr \<Rightarrow> size_t \<Rightarrow> addr \<Rightarrow> error + (addr \<times> cstate)" where
  "realloc st p n r =
     (if p = NULL then malloc st n r
      else (case blocks st p of
          None \<Rightarrow> Inl Undefined
        | Some old_n \<Rightarrow>
            if r = NULL then
              (if n = 0 then
                 Inr (NULL, st\<lparr>blocks := (blocks st)(p := None), hdr := (hdr st)(p := None)\<rparr>)
               else Inr (NULL, st))
            else
              Inr (r, st\<lparr>blocks := ((blocks st)(p := None))(r \<mapsto> n),
                         hdr := ((hdr st)(p := None))
                                  (r := (if sizeof_DebugHeader \<le> n then hdr st p else None)),
                         bytes := (\<lambda>a. if a - r < min old_n n then bytes st (p + (a - r))
                                        else bytes st a)\<rparr>)))"

subsection \<open>Field accesses through a \<^verbatim>\<open>DebugHeader *\<close>\<close>

definition set_next :: "cstate \<Rightarrow> addr \<Rightarrow> addr \<Rightarrow> error + cstate" where
  "set_next st h v =
     (case hdr st h of
        None \<Rightarrow> Inl Undefined
      | Some d \<Rightarrow> Inr (st\<lparr>hdr := (hdr st)(h \<mapsto> d\<lparr>next_h := v\<rparr>)\<rparr>))"

definition set_prev :: "cstate \<Rightarrow> addr \<Rightarrow> addr \<Rightarrow> error + cstate" where
  "set_prev st h v =
     (case hdr st h of
        None \<Rightarrow> Inl Undefined
      | Some d \<Rightarrow> Inr (st\<lparr>hdr := (hdr st)(h \<mapsto> d\<lparr>prev_h := v\<rparr>)\<rparr>))"

definition set_size :: "cstate \<Rightarrow> addr \<Rightarrow> size_t \<Rightarrow> error + cstate" where
  "set_size st h v =
     (case hdr st h of
        None \<Rightarrow> Inl Undefined
      | Some d \<Rightarrow> Inr (st\<lparr>hdr := (hdr st)(h \<mapsto> d\<lparr>size_h := v\<rparr>)\<rparr>))"

subsection \<open>\<^verbatim>\<open>checkPtr\<close>, and the fail-fast functions\<close>

definition checkPtr :: "addr \<Rightarrow> error + unit" where
  "checkPtr ptr = (if ptr = NULL then Inl (Panic 37 ''out of memory'') else Inr ())"

definition xalloc :: "cstate \<Rightarrow> size_t \<Rightarrow> addr \<Rightarrow> error + (addr \<times> cstate)" where
  "xalloc st sz r =
     (if sz = 0 then Inr (NULL, st)
      else (case malloc st sz r of
          Inl e \<Rightarrow> Inl e
        | Inr (ptr, st1) \<Rightarrow>
            (case checkPtr ptr of Inl e \<Rightarrow> Inl e | Inr _ \<Rightarrow> Inr (ptr, st1))))"

definition xrealloc :: "cstate \<Rightarrow> addr \<Rightarrow> size_t \<Rightarrow> addr \<Rightarrow> error + (addr \<times> cstate)" where
  "xrealloc st ptr sz r =
     (case realloc st ptr sz r of
        Inl e \<Rightarrow> Inl e
      | Inr (newPtr, st1) \<Rightarrow>
          (case checkPtr newPtr of Inl e \<Rightarrow> Inl e | Inr _ \<Rightarrow> Inr (newPtr, st1)))"

text \<open>
  \<^verbatim>\<open>xfree\<close>, lines 57 to 69. The header is read again after each store, as the C
  statements do.
\<close>

definition xfree :: "cstate \<Rightarrow> addr \<Rightarrow> error + cstate" where
  "xfree st ptr =
     (if ptr = NULL then Inr st
      else
        let h = ptr - sizeof_DebugHeader in
        (case hdr st h of
           None \<Rightarrow> Inl Undefined
         | Some d \<Rightarrow>
            (case (if prev_h d \<noteq> NULL then set_next st (prev_h d) (next_h d)
                   else Inr (st\<lparr>dbgHead := next_h d\<rparr>)) of
               Inl e \<Rightarrow> Inl e
             | Inr st1 \<Rightarrow>
                (case hdr st1 h of
                   None \<Rightarrow> Inl Undefined
                 | Some d1 \<Rightarrow>
                    (case (if next_h d1 \<noteq> NULL then set_prev st1 (next_h d1) (prev_h d1)
                           else Inr st1) of
                       Inl e \<Rightarrow> Inl e
                     | Inr st2 \<Rightarrow>
                        (case hdr st2 h of
                           None \<Rightarrow> Inl Undefined
                         | Some d2 \<Rightarrow>
                             free (st2\<lparr>debugBytesAlive := debugBytesAlive st2 - size_h d2\<rparr>)
                               h))))))"

subsection \<open>The debug-tracking functions\<close>

text \<open>
  \<^verbatim>\<open>debugAlloc\<close>. The request \<^verbatim>\<open>sizeof(DebugHeader) + sz\<close> is computed in \<^verbatim>\<open>size_t\<close>;
  when it wraps, the block is smaller than a header and the stores into the header are
  out of bounds.
\<close>

definition debugAlloc :: "cstate \<Rightarrow> size_t \<Rightarrow> addr \<Rightarrow> error + (addr \<times> cstate)" where
  "debugAlloc st sz r =
     (if sz = 0 then Inr (NULL, st)
      else (case malloc st (sizeof_DebugHeader + sz) r of
          Inl e \<Rightarrow> Inl e
        | Inr (dh, st1) \<Rightarrow>
            (case checkPtr dh of
               Inl e \<Rightarrow> Inl e
             | Inr _ \<Rightarrow>
                if sizeof_DebugHeader + sz < sizeof_DebugHeader then Inl Undefined
                else
                  let st2 = st1\<lparr>debugAllocCount := debugAllocCount st1 + 1\<rparr>;
                      st3 = st2\<lparr>hdr := (hdr st2)(dh \<mapsto>
                              \<lparr>size_h = sz, allocNumber = debugAllocCount st2,
                               next_h = dbgHead st2, prev_h = NULL\<rparr>)\<rparr>
                  in (case (if dbgHead st3 \<noteq> NULL then set_prev st3 (dbgHead st3) dh
                            else Inr st3) of
                        Inl e \<Rightarrow> Inl e
                      | Inr st4 \<Rightarrow>
                          let st5 = st4\<lparr>dbgHead := dh\<rparr>;
                              st6 = st5\<lparr>debugBytesAlive := debugBytesAlive st5 + sz\<rparr>
                          in Inr (dh + sizeof_DebugHeader, st6)))))"

definition debugFree :: "cstate \<Rightarrow> addr \<Rightarrow> error + cstate" where
  "debugFree st ptr =
     (if ptr = NULL then Inr st
      else
        let h = ptr - sizeof_DebugHeader in
        (case hdr st h of
           None \<Rightarrow> Inl Undefined
         | Some d \<Rightarrow>
            (case (if prev_h d \<noteq> NULL then set_next st (prev_h d) (next_h d)
                   else Inr (st\<lparr>dbgHead := next_h d\<rparr>)) of
               Inl e \<Rightarrow> Inl e
             | Inr st1 \<Rightarrow>
                (case hdr st1 h of
                   None \<Rightarrow> Inl Undefined
                 | Some d1 \<Rightarrow>
                    (case (if next_h d1 \<noteq> NULL then set_prev st1 (next_h d1) (prev_h d1)
                           else Inr st1) of
                       Inl e \<Rightarrow> Inl e
                     | Inr st2 \<Rightarrow>
                        (case hdr st2 h of
                           None \<Rightarrow> Inl Undefined
                         | Some d2 \<Rightarrow>
                             free (st2\<lparr>debugBytesAlive := debugBytesAlive st2 - size_h d2\<rparr>)
                               h))))))"

text \<open>Lines 107 to 112 of \<^verbatim>\<open>debugRealloc\<close>: the link repair after the block has moved.\<close>

definition relink :: "cstate \<Rightarrow> addr \<Rightarrow> error + cstate" where
  "relink st new =
     (case hdr st new of
        None \<Rightarrow> Inl Undefined
      | Some d \<Rightarrow>
         (case (if prev_h d \<noteq> NULL then set_next st (prev_h d) new
                else Inr (st\<lparr>dbgHead := new\<rparr>)) of
            Inl e \<Rightarrow> Inl e
          | Inr st1 \<Rightarrow>
             (case hdr st1 new of
                None \<Rightarrow> Inl Undefined
              | Some d1 \<Rightarrow>
                  if next_h d1 \<noteq> NULL then set_prev st1 (next_h d1) new else Inr st1)))"

definition debugRealloc :: "cstate \<Rightarrow> addr \<Rightarrow> size_t \<Rightarrow> addr \<Rightarrow> error + (addr \<times> cstate)" where
  "debugRealloc st ptr sz r =
     (if ptr = NULL then debugAlloc st sz r
      else if sz = 0 then
        (case debugFree st ptr of Inl e \<Rightarrow> Inl e | Inr st' \<Rightarrow> Inr (NULL, st'))
      else
        let old = ptr - sizeof_DebugHeader in
        (case hdr st old of
           None \<Rightarrow> Inl Undefined
         | Some d \<Rightarrow>
            let oldSize = size_h d in
            (case realloc st old (sizeof_DebugHeader + sz) r of
               Inl e \<Rightarrow> Inl e
             | Inr (new, st1) \<Rightarrow>
                (case checkPtr new of
                   Inl e \<Rightarrow> Inl e
                 | Inr _ \<Rightarrow>
                    (case (if new \<noteq> old then relink st1 new else Inr st1) of
                       Inl e \<Rightarrow> Inl e
                     | Inr st2 \<Rightarrow>
                        (case set_size st2 new sz of
                           Inl e \<Rightarrow> Inl e
                         | Inr st3 \<Rightarrow>
                             Inr (new + sizeof_DebugHeader,
                                  st3\<lparr>debugBytesAlive :=
                                        debugBytesAlive st3 - oldSize + sz\<rparr>)))))))"

subsection \<open>The leak report\<close>

text \<open>\<^verbatim>\<open>%zu\<close>: a \<^verbatim>\<open>size_t\<close> in decimal.\<close>

function dec :: "nat \<Rightarrow> string" where
  "dec n = (if n < 10 then [''0123456789'' ! n]
            else dec (n div 10) @ [''0123456789'' ! (n mod 10)])"
  by pat_completeness auto
termination
  by (relation "measure id") auto

declare dec.simps [simp del]

definition leak_line :: "DebugHeader \<Rightarrow> string" where
  "leak_line d = ''Leak: allocation '' @ dec (unat (allocNumber d)) @ '' leaked '' @
     dec (unat (size_h d)) @ '' bytes '' @ [CHR 0x0A]"

text \<open>
  The \<^verbatim>\<open>while (h)\<close> loop of \<^verbatim>\<open>debugReportLeaks\<close>, on the text written so far. It need
  not end (a cyclic \<^verbatim>\<open>next\<close> chain), so its result is an option.
\<close>

partial_function (option) leak_loop ::
    "(addr \<rightharpoonup> DebugHeader) \<Rightarrow> addr \<Rightarrow> string \<Rightarrow> (error + string) option" where
  "leak_loop m h out =
     (if h = NULL then Some (Inr out)
      else (case m h of
          None \<Rightarrow> Some (Inl Undefined)
        | Some d \<Rightarrow> leak_loop m (next_h d) (out @ leak_line d)))"

definition debugReportLeaks :: "cstate \<Rightarrow> (error + cstate) option" where
  "debugReportLeaks st =
     (if dbgHead st = NULL then
        Some (Inr (st\<lparr>stderr := stderr st @ ''No memory leaks detected.'' @ [CHR 0x0A]\<rparr>))
      else
        (case leak_loop (hdr st) (dbgHead st)
                (stderr st @ ''MEMORY LEAKS DETECTED:'' @ [CHR 0x0A]) of
           None \<Rightarrow> None
         | Some (Inl e) \<Rightarrow> Some (Inl e)
         | Some (Inr out) \<Rightarrow>
             Some (Inr (st\<lparr>stderr := out @ ''Total leaked: '' @
                          dec (unat (debugBytesAlive st)) @ '' bytes'' @ [CHR 0x0A]\<rparr>))))"

subsection \<open>The strategy tables and \<^verbatim>\<open>xstrdup\<close>\<close>

text \<open>\<^verbatim>\<open>struct Allocator\<close>: three function pointers (the fields carry a suffix).\<close>

record Allocator =
  alloc_f :: "cstate \<Rightarrow> size_t \<Rightarrow> addr \<Rightarrow> error + (addr \<times> cstate)"
  free_f :: "cstate \<Rightarrow> addr \<Rightarrow> error + cstate"
  realloc_f :: "cstate \<Rightarrow> addr \<Rightarrow> size_t \<Rightarrow> addr \<Rightarrow> error + (addr \<times> cstate)"

definition BasicAllocator :: Allocator where
  "BasicAllocator = \<lparr>alloc_f = malloc, free_f = free, realloc_f = realloc\<rparr>"

definition SafeAllocator :: Allocator where
  "SafeAllocator = \<lparr>alloc_f = xalloc, free_f = xfree, realloc_f = xrealloc\<rparr>"

definition DebugAllocator :: Allocator where
  "DebugAllocator = \<lparr>alloc_f = debugAlloc, free_f = debugFree, realloc_f = debugRealloc\<rparr>"

text \<open>
  A C string is the characters before the first NUL; \<^verbatim>\<open>strlen\<close> counts them, in
  \<^verbatim>\<open>size_t\<close>. The argument of \<^verbatim>\<open>xstrdup\<close> is \<open>None\<close> for a null \<^verbatim>\<open>s\<close>.
\<close>

definition c_chars :: "string \<Rightarrow> string" where
  "c_chars s = takeWhile (\<lambda>c. c \<noteq> CHR 0x00) s"

definition strlen :: "string \<Rightarrow> size_t" where
  "strlen s = of_nat (length (c_chars s))"

text \<open>The copy loop and the terminator: \<^verbatim>\<open>dup[i] = s[i]\<close> for each \<open>i\<close>, then \<^verbatim>\<open>dup[len] = 0\<close>.\<close>

fun store_chars :: "(addr \<rightharpoonup> char) \<Rightarrow> addr \<Rightarrow> string \<Rightarrow> (addr \<rightharpoonup> char)" where
  "store_chars b p [] = b(p \<mapsto> CHR 0x00)"
| "store_chars b p (c # cs) = store_chars (b(p \<mapsto> c)) (p + 1) cs"

definition xstrdup :: "Allocator \<Rightarrow> cstate \<Rightarrow> string option \<Rightarrow> addr \<Rightarrow> error + (addr \<times> cstate)" where
  "xstrdup allocator st s r =
     (case s of
        None \<Rightarrow> Inr (NULL, st)
      | Some cs \<Rightarrow>
          let len = strlen cs in
          (case alloc_f allocator st (len + 1) r of
             Inl e \<Rightarrow> Inl e
           | Inr (dup, st1) \<Rightarrow>
               if dup = NULL then Inl Undefined
               else Inr (dup, st1\<lparr>bytes := store_chars (bytes st1) dup (c_chars cs)\<rparr>)))"

subsection \<open>Sequences of operations on the debug strategy\<close>

text \<open>
  A call of the debug strategy, with its arguments and the answer of the C library
  to the one library request the call may make.
\<close>

datatype op = Alloc size_t addr | Free addr | Realloc addr size_t addr

text \<open>The sequence number of the record in front of the payload pointer \<open>p\<close>.\<close>

definition seq_at :: "cstate \<Rightarrow> addr \<Rightarrow> size_t list" where
  "seq_at st p =
     (case hdr st (p - sizeof_DebugHeader) of None \<Rightarrow> [] | Some d \<Rightarrow> [allocNumber d])"

text \<open>
  One call: the new state, and the sequence number the call has assigned, if it
  created a record (a \<^verbatim>\<open>debugAlloc\<close> of a nonzero size, directly or through
  \<^verbatim>\<open>debugRealloc(NULL, sz)\<close>).
\<close>

fun step :: "cstate \<Rightarrow> op \<Rightarrow> error + (cstate \<times> size_t list)" where
  "step st (Alloc sz r) =
     (case debugAlloc st sz r of
        Inl e \<Rightarrow> Inl e
      | Inr (p, st') \<Rightarrow> Inr (st', if sz = 0 then [] else seq_at st' p))"
| "step st (Free p) =
     (case debugFree st p of Inl e \<Rightarrow> Inl e | Inr st' \<Rightarrow> Inr (st', []))"
| "step st (Realloc p sz r) =
     (case debugRealloc st p sz r of
        Inl e \<Rightarrow> Inl e
      | Inr (q, st') \<Rightarrow> Inr (st', if p = NULL \<and> sz \<noteq> 0 then seq_at st' q else []))"

fun run :: "cstate \<Rightarrow> op list \<Rightarrow> error + (cstate \<times> size_t list)" where
  "run st [] = Inr (st, [])"
| "run st (x # xs) =
     (case step st x of
        Inl e \<Rightarrow> Inl e
      | Inr (st1, ns) \<Rightarrow>
          (case run st1 xs of Inl e \<Rightarrow> Inl e | Inr (st2, ms) \<Rightarrow> Inr (st2, ns @ ms)))"

text \<open>
  What the C library guarantees about the address it answers with: a block it hands
  out is not a live block, except that \<^verbatim>\<open>realloc\<close> may answer with the block it was
  given.
\<close>

fun env_ok :: "cstate \<Rightarrow> op \<Rightarrow> bool" where
  "env_ok st (Alloc sz r) = (r = NULL \<or> blocks st r = None)"
| "env_ok st (Free p) = True"
| "env_ok st (Realloc p sz r) =
     (r = NULL \<or> (p \<noteq> NULL \<and> r = p - sizeof_DebugHeader) \<or> blocks st r = None)"

fun ops_ok :: "cstate \<Rightarrow> op list \<Rightarrow> bool" where
  "ops_ok st [] = True"
| "ops_ok st (x # xs) =
     (env_ok st x \<and> (case step st x of Inl e \<Rightarrow> True | Inr (st1, ns) \<Rightarrow> ops_ok st1 xs))"

subsection \<open>The list headed by \<^verbatim>\<open>dbgHead\<close>\<close>

text \<open>
  The records met by following \<^verbatim>\<open>next\<close> from \<open>h\<close> to the null pointer, with their
  addresses; \<open>None\<close> when the chain leaves the stored headers or never ends.
\<close>

partial_function (option) walk ::
    "(addr \<rightharpoonup> DebugHeader) \<Rightarrow> addr \<Rightarrow> (addr \<times> DebugHeader) list option" where
  "walk m h =
     (if h = NULL then Some []
      else (case m h of
          None \<Rightarrow> None
        | Some d \<Rightarrow> Option.bind (walk m (next_h d)) (\<lambda>rs. Some ((h, d) # rs))))"

text \<open>
  Validity of the doubly-linked list: the chain from \<^verbatim>\<open>dbgHead\<close> ends, the head's
  \<^verbatim>\<open>prev\<close> is null, and every record's neighbours, where present, point back to it.
\<close>

definition dll_valid :: "cstate \<Rightarrow> bool" where
  "dll_valid st \<longleftrightarrow>
     (case walk (hdr st) (dbgHead st) of
        None \<Rightarrow> False
      | Some rs \<Rightarrow>
          (case rs of [] \<Rightarrow> True | (a, d) # _ \<Rightarrow> prev_h d = NULL) \<and>
          (\<forall>(a, d) \<in> set rs.
             (next_h d \<noteq> NULL \<longrightarrow>
                (case hdr st (next_h d) of None \<Rightarrow> False | Some d' \<Rightarrow> prev_h d' = a)) \<and>
             (prev_h d \<noteq> NULL \<longrightarrow>
                (case hdr st (prev_h d) of None \<Rightarrow> False | Some d' \<Rightarrow> next_h d' = a))))"

subsection \<open>The representation invariant\<close>

text \<open>A chain of addresses \<open>as\<close> from \<open>p\<close> to \<open>q\<close> along a link function.\<close>

primrec path :: "(addr \<Rightarrow> addr) \<Rightarrow> addr \<Rightarrow> addr list \<Rightarrow> addr \<Rightarrow> bool" where
  "path f p [] q = (p = q)"
| "path f p (a # as) q = (p = a \<and> path f (f a) as q)"

definition nextf :: "(addr \<rightharpoonup> DebugHeader) \<Rightarrow> addr \<Rightarrow> addr" where
  "nextf m a = (case m a of None \<Rightarrow> NULL | Some d \<Rightarrow> next_h d)"

definition prevf :: "(addr \<rightharpoonup> DebugHeader) \<Rightarrow> addr \<Rightarrow> addr" where
  "prevf m a = (case m a of None \<Rightarrow> NULL | Some d \<Rightarrow> prev_h d)"

definition sizef :: "(addr \<rightharpoonup> DebugHeader) \<Rightarrow> addr \<Rightarrow> size_t" where
  "sizef m a = (case m a of None \<Rightarrow> 0 | Some d \<Rightarrow> size_h d)"

definition lastp :: "addr list \<Rightarrow> addr" where
  "lastp ps = (if ps = [] then NULL else last ps)"

text \<open>
  \<open>tracked st ps\<close>: the header addresses \<open>ps\<close>, head first, are exactly the stored
  headers; \<^verbatim>\<open>next\<close> chains them from \<^verbatim>\<open>dbgHead\<close> to null and \<^verbatim>\<open>prev\<close> chains them
  back; each lies in a live block; \<^verbatim>\<open>debugBytesAlive\<close> is the sum of their sizes.
\<close>

definition tracked :: "cstate \<Rightarrow> addr list \<Rightarrow> bool" where
  "tracked st ps \<longleftrightarrow>
     path (nextf (hdr st)) (dbgHead st) ps NULL \<and>
     path (prevf (hdr st)) (lastp ps) (rev ps) NULL \<and>
     distinct ps \<and> NULL \<notin> set ps \<and> dom (hdr st) = set ps \<and>
     dom (hdr st) \<subseteq> dom (blocks st) \<and>
     debugBytesAlive st = sum_list (map (sizef (hdr st)) ps)"

text \<open>The stored headers after \<^verbatim>\<open>debugFree\<close> has unlinked and released the one at \<open>h\<close>.\<close>

definition unlink :: "(addr \<rightharpoonup> DebugHeader) \<Rightarrow> addr \<Rightarrow> (addr \<rightharpoonup> DebugHeader)" where
  "unlink m h =
     (let d = the (m h);
          m1 = (if prev_h d \<noteq> NULL
                then m(prev_h d \<mapsto> (the (m (prev_h d)))\<lparr>next_h := next_h d\<rparr>) else m);
          m2 = (if next_h d \<noteq> NULL
                then m1(next_h d \<mapsto> (the (m1 (next_h d)))\<lparr>prev_h := prev_h d\<rparr>) else m1)
      in m2(h := None))"

text \<open>
  The record at \<open>h\<close> is stored as \<open>d\<close>, and its neighbours, where it has any, are stored
  records other than itself and each other.
\<close>

definition linked_ok :: "(addr \<rightharpoonup> DebugHeader) \<Rightarrow> addr \<Rightarrow> DebugHeader \<Rightarrow> bool" where
  "linked_ok m h d \<longleftrightarrow> m h = Some d \<and>
     (prev_h d \<noteq> NULL \<longrightarrow> prev_h d \<noteq> h \<and> m (prev_h d) \<noteq> None) \<and>
     (next_h d \<noteq> NULL \<longrightarrow> next_h d \<noteq> h \<and> next_h d \<noteq> prev_h d \<and> m (next_h d) \<noteq> None)"

text \<open>The stored headers after \<^verbatim>\<open>debugAlloc\<close> has put the new record \<open>d\<close> at \<open>dh\<close> in front.\<close>

definition pushed :: "(addr \<rightharpoonup> DebugHeader) \<Rightarrow> addr \<Rightarrow> DebugHeader \<Rightarrow> (addr \<rightharpoonup> DebugHeader)" where
  "pushed m dh d =
     (let m1 = m(dh \<mapsto> d)
      in if next_h d \<noteq> NULL then m1(next_h d \<mapsto> (the (m1 (next_h d)))\<lparr>prev_h := dh\<rparr>) else m1)"

text \<open>
  The stored headers after \<^verbatim>\<open>debugRealloc\<close> has moved the record at \<open>old\<close> to \<open>new\<close>,
  repaired the links and set the size.
\<close>

definition moved :: "(addr \<rightharpoonup> DebugHeader) \<Rightarrow> addr \<Rightarrow> addr \<Rightarrow> size_t \<Rightarrow> (addr \<rightharpoonup> DebugHeader)" where
  "moved m old new sz =
     (let d = the (m old);
          m1 = (m(old := None))(new \<mapsto> d);
          m2 = (if prev_h d \<noteq> NULL
                then m1(prev_h d \<mapsto> (the (m1 (prev_h d)))\<lparr>next_h := new\<rparr>) else m1);
          m3 = (if next_h d \<noteq> NULL
                then m2(next_h d \<mapsto> (the (m2 (next_h d)))\<lparr>prev_h := new\<rparr>) else m2)
      in m3(new \<mapsto> (the (m3 new))\<lparr>size_h := sz\<rparr>))"

text \<open>A header whose links to the address \<open>old\<close> now lead to \<open>new\<close>.\<close>

definition redirect :: "addr \<Rightarrow> addr \<Rightarrow> DebugHeader \<Rightarrow> DebugHeader" where
  "redirect old new d =
     d\<lparr>next_h := (if next_h d = old then new else next_h d),
       prev_h := (if prev_h d = old then new else prev_h d)\<rparr>"

section \<open>Properties\<close>

subsection \<open>Chains and link functions\<close>

lemma path_append: "path f p (xs @ ys) q = (\<exists>r. path f p xs r \<and> path f r ys q)"
  by (induction xs arbitrary: p) auto

lemma path_upd [simp]: "a \<notin> set as \<Longrightarrow> path (f(a := v)) p as q = path f p as q"
  by (induction as arbitrary: p) auto

lemma path_start: "path f p as q \<Longrightarrow> p = (if as = [] then q else hd as)"
  by (cases as) auto

lemma nextf_upd [simp]: "nextf (m(a \<mapsto> d)) = (nextf m)(a := next_h d)"
  by (rule ext) (simp add: nextf_def)

lemma nextf_del [simp]: "nextf (m(a := None)) = (nextf m)(a := NULL)"
  by (rule ext) (simp add: nextf_def)

lemma prevf_upd [simp]: "prevf (m(a \<mapsto> d)) = (prevf m)(a := prev_h d)"
  by (rule ext) (simp add: prevf_def)

lemma prevf_del [simp]: "prevf (m(a := None)) = (prevf m)(a := NULL)"
  by (rule ext) (simp add: prevf_def)

lemma sizef_upd [simp]: "sizef (m(a \<mapsto> d)) = (sizef m)(a := size_h d)"
  by (rule ext) (simp add: sizef_def)

lemma sizef_del [simp]: "sizef (m(a := None)) = (sizef m)(a := 0)"
  by (rule ext) (simp add: sizef_def)

lemma map_upd_notin [simp]: "a \<notin> set as \<Longrightarrow> map (f(a := v)) as = map f as"
  by (induction as) auto

lemma lastp_simps [simp]:
  "lastp [] = NULL" "lastp (xs @ [a]) = a" "lastp (xs @ a # ys) = lastp (a # ys)"
  "lastp (a # b # ys) = lastp (b # ys)" "lastp [a] = a"
  by (simp_all add: lastp_def)

lemma unlink_fwd:
  assumes "path nf hd0 (xs @ h # ys) NULL" "distinct (xs @ h # ys)"
  shows "path ((if xs = [] then nf else nf(last xs := nf h))(h := v))
           (if xs = [] then nf h else hd0) (xs @ ys) NULL"
  using assms by (cases xs rule: rev_cases) (auto simp: path_append)

lemma unlink_bwd:
  assumes "path pf l (rev (xs @ h # ys)) NULL" "distinct (xs @ h # ys)"
  shows "path ((if ys = [] then pf else pf(hd ys := pf h))(h := v))
           (if ys = [] then pf h else l) (rev (xs @ ys)) NULL"
  using unlink_fwd[of pf l "rev ys" h "rev xs" v] assms
  by (cases "ys = []") (auto simp: last_rev)

subsection \<open>What the invariant says about one record\<close>

lemma tracked_record:
  assumes T: "tracked st (xs @ h # ys)"
  obtains d where "hdr st h = Some d"
    "next_h d = (if ys = [] then NULL else hd ys)"
    "prev_h d = (if xs = [] then NULL else last xs)"
    "(next_h d = NULL) = (ys = [])" "(prev_h d = NULL) = (xs = [])"
    "linked_ok (hdr st) h d" "blocks st h \<noteq> None" "h \<noteq> NULL"
proof -
  let ?m = "hdr st"
  let ?nf = "nextf ?m" and ?pf = "prevf ?m"
  from T obtain d where d: "?m h = Some d"
    unfolding tracked_def by (metis domD in_set_conv_decomp)
  from T have dist: "distinct (xs @ h # ys)" and nn: "NULL \<notin> set (xs @ h # ys)"
    and dom: "dom ?m = set (xs @ h # ys)" and blk: "dom ?m \<subseteq> dom (blocks st)"
    and fwd: "path ?nf (dbgHead st) (xs @ h # ys) NULL"
    and bwd: "path ?pf (lastp (xs @ h # ys)) (rev (xs @ h # ys)) NULL"
    unfolding tracked_def by blast+
  have nfh: "?nf h = next_h d" and pfh: "?pf h = prev_h d"
    using d by (simp_all add: nextf_def prevf_def)
  from fwd have fw: "path ?nf (next_h d) ys NULL"
    by (auto simp: nfh path_append)
  from bwd have bw: "path ?pf (prev_h d) (rev xs) NULL"
    by (auto simp: pfh path_append)
  have nx: "next_h d = (if ys = [] then NULL else hd ys)"
    using path_start[OF fw] by simp
  have pv: "prev_h d = (if xs = [] then NULL else last xs)"
    using path_start[OF bw] by (simp add: hd_rev)
  have nxN: "(next_h d = NULL) = (ys = [])"
    using nn nx by (cases ys) auto
  have pvN: "(prev_h d = NULL) = (xs = [])"
    using nn pv by (cases xs rule: rev_cases) auto
  have hb: "blocks st h \<noteq> None" using dom blk by auto
  have lk: "linked_ok ?m h d"
    unfolding linked_ok_def using d dist dom nx pv nn
    by (cases xs rule: rev_cases; cases ys) (auto simp: domD)
  from nn have "h \<noteq> NULL" by auto
  with d nx pv nxN pvN lk hb that show ?thesis by blast
qed

subsection \<open>\<^verbatim>\<open>debugFree\<close> keeps the invariant\<close>

lemma debugFree_result:
  assumes "p \<noteq> NULL" "linked_ok (hdr st) (p - sizeof_DebugHeader) d"
    "blocks st (p - sizeof_DebugHeader) \<noteq> None" "p - sizeof_DebugHeader \<noteq> NULL"
  shows "debugFree st p = Inr (st\<lparr>dbgHead := (if prev_h d \<noteq> NULL then dbgHead st else next_h d),
           hdr := unlink (hdr st) (p - sizeof_DebugHeader),
           blocks := (blocks st)(p - sizeof_DebugHeader := None),
           debugBytesAlive := debugBytesAlive st - size_h d\<rparr>)"
  using assms
  by (auto simp: debugFree_def linked_ok_def unlink_def set_next_def set_prev_def free_def Let_def)

lemma nextf_unlink:
  assumes "linked_ok m h d"
  shows "nextf (unlink m h) =
           (if prev_h d = NULL then nextf m else (nextf m)(prev_h d := next_h d))(h := NULL)"
  using assms by (intro ext) (auto simp: linked_ok_def unlink_def nextf_def Let_def)

lemma prevf_unlink:
  assumes "linked_ok m h d"
  shows "prevf (unlink m h) =
           (if next_h d = NULL then prevf m else (prevf m)(next_h d := prev_h d))(h := NULL)"
  using assms by (intro ext) (auto simp: linked_ok_def unlink_def prevf_def Let_def)

lemma sizef_unlink:
  assumes "linked_ok m h d"
  shows "sizef (unlink m h) = (sizef m)(h := 0)"
  using assms by (intro ext) (auto simp: linked_ok_def unlink_def sizef_def Let_def)

lemma dom_unlink:
  assumes "linked_ok m h d"
  shows "dom (unlink m h) = dom m - {h}"
  using assms by (auto simp: linked_ok_def unlink_def Let_def split: if_splits)

lemma debugFree_tracked:
  assumes T: "tracked st (xs @ h # ys)" and p: "p = h + sizeof_DebugHeader" "p \<noteq> NULL"
  shows "\<exists>st'. debugFree st p = Inr st' \<and> tracked st' (xs @ ys) \<and>
           debugAllocCount st' = debugAllocCount st \<and>
           debugBytesAlive st' = debugBytesAlive st - sizef (hdr st) h"
proof -
  let ?m = "hdr st"
  let ?nf = "nextf ?m" and ?pf = "prevf ?m"
  from T obtain d where d: "?m h = Some d"
    and nx: "next_h d = (if ys = [] then NULL else hd ys)"
    and pv: "prev_h d = (if xs = [] then NULL else last xs)"
    and nxN: "(next_h d = NULL) = (ys = [])" and pvN: "(prev_h d = NULL) = (xs = [])"
    and lk: "linked_ok ?m h d" and hb: "blocks st h \<noteq> None" and hn: "h \<noteq> NULL"
    by (rule tracked_record)
  from T have dist: "distinct (xs @ h # ys)" and nn: "NULL \<notin> set (xs @ h # ys)"
    and dom: "dom ?m = set (xs @ h # ys)" and blk: "dom ?m \<subseteq> dom (blocks st)"
    and fwd: "path ?nf (dbgHead st) (xs @ h # ys) NULL"
    and bwd: "path ?pf (lastp (xs @ h # ys)) (rev (xs @ h # ys)) NULL"
    and sz: "debugBytesAlive st = sum_list (map (sizef ?m) (xs @ h # ys))"
    unfolding tracked_def by blast+
  have nfh: "?nf h = next_h d" and pfh: "?pf h = prev_h d" and sfh: "sizef ?m h = size_h d"
    using d by (simp_all add: nextf_def prevf_def sizef_def)
  define st' where "st' = st\<lparr>dbgHead := (if prev_h d \<noteq> NULL then dbgHead st else next_h d),
           hdr := unlink ?m h, blocks := (blocks st)(h := None),
           debugBytesAlive := debugBytesAlive st - size_h d\<rparr>"
  have R: "debugFree st p = Inr st'"
    unfolding st'_def using debugFree_result[of p st d] p lk hb hn by simp
  have F: "path (nextf (hdr st')) (dbgHead st') (xs @ ys) NULL"
    using unlink_fwd[OF fwd dist, of NULL] pvN
    by (cases "xs = []") (simp_all add: st'_def nextf_unlink[OF lk] nfh pv)
  have B: "path (prevf (hdr st')) (lastp (xs @ ys)) (rev (xs @ ys)) NULL"
    using unlink_bwd[OF bwd dist, of NULL] nxN
    by (cases "ys = []") (simp_all add: st'_def prevf_unlink[OF lk] pfh nx pv lastp_def)
  have S: "debugBytesAlive st' = sum_list (map (sizef (hdr st')) (xs @ ys))"
    using dist by (simp add: st'_def sizef_unlink[OF lk] sz sfh)
  have "tracked st' (xs @ ys)"
    unfolding tracked_def using F B S dist nn dom blk
    by (auto simp: st'_def dom_unlink[OF lk])
  with R show ?thesis by (auto simp: st'_def sfh)
qed

subsection \<open>\<^verbatim>\<open>debugAlloc\<close> keeps the invariant\<close>

lemma debugAlloc_result:
  assumes "sz \<noteq> 0" "r \<noteq> NULL" "sizeof_DebugHeader \<le> sizeof_DebugHeader + sz"
    "dbgHead st \<noteq> NULL \<longrightarrow> dbgHead st \<noteq> r \<and> hdr st (dbgHead st) \<noteq> None"
  shows "debugAlloc st sz r = Inr (r + sizeof_DebugHeader,
           st\<lparr>blocks := (blocks st)(r \<mapsto> sizeof_DebugHeader + sz),
              debugAllocCount := debugAllocCount st + 1,
              hdr := pushed (hdr st) r \<lparr>size_h = sz, allocNumber = debugAllocCount st + 1,
                       next_h = dbgHead st, prev_h = NULL\<rparr>,
              dbgHead := r,
              debugBytesAlive := debugBytesAlive st + sz\<rparr>)"
  using assms
  by (auto simp: debugAlloc_def malloc_def checkPtr_def pushed_def set_prev_def Let_def)

lemma nextf_pushed:
  assumes "next_h d \<noteq> NULL \<longrightarrow> next_h d \<noteq> r \<and> m (next_h d) \<noteq> None"
  shows "nextf (pushed m r d) = (nextf m)(r := next_h d)"
  using assms by (intro ext) (auto simp: pushed_def nextf_def Let_def)

lemma prevf_pushed:
  assumes "next_h d \<noteq> NULL \<longrightarrow> next_h d \<noteq> r \<and> m (next_h d) \<noteq> None"
  shows "prevf (pushed m r d) =
           (if next_h d = NULL then (prevf m)(r := prev_h d)
            else (prevf m)(r := prev_h d, next_h d := r))"
  using assms by (intro ext) (auto simp: pushed_def prevf_def Let_def)

lemma sizef_pushed:
  assumes "next_h d \<noteq> NULL \<longrightarrow> next_h d \<noteq> r \<and> m (next_h d) \<noteq> None"
  shows "sizef (pushed m r d) = (sizef m)(r := size_h d)"
  using assms by (intro ext) (auto simp: pushed_def sizef_def Let_def)

lemma dom_pushed:
  assumes "next_h d \<noteq> NULL \<longrightarrow> next_h d \<noteq> r \<and> m (next_h d) \<noteq> None"
  shows "dom (pushed m r d) = insert r (dom m)"
  using assms by (auto simp: pushed_def Let_def split: if_splits)

lemma push_bwd:
  assumes "path pf (lastp ps) (rev ps) NULL" "distinct ps" "r \<notin> set ps"
  shows "path (if ps = [] then pf(r := NULL) else pf(r := NULL, hd ps := r))
           (lastp (r # ps)) (rev (r # ps)) NULL"
  using assms by (cases ps) (auto simp: path_append)

lemma tracked_head:
  assumes "tracked st ps"
  shows "dbgHead st = (if ps = [] then NULL else hd ps)"
    "dbgHead st \<noteq> NULL \<longrightarrow> hdr st (dbgHead st) \<noteq> None \<and> dbgHead st \<in> set ps"
proof -
  from assms have fwd: "path (nextf (hdr st)) (dbgHead st) ps NULL"
    and nn: "NULL \<notin> set ps" and dom: "dom (hdr st) = set ps"
    unfolding tracked_def by blast+
  show "dbgHead st = (if ps = [] then NULL else hd ps)"
    using path_start[OF fwd] by simp
  then show "dbgHead st \<noteq> NULL \<longrightarrow> hdr st (dbgHead st) \<noteq> None \<and> dbgHead st \<in> set ps"
    using dom by (cases ps) auto
qed

lemma debugAlloc_tracked:
  assumes T: "tracked st ps" and a: "sz \<noteq> 0" "r \<noteq> NULL" "blocks st r = None"
    "sizeof_DebugHeader \<le> sizeof_DebugHeader + sz"
  shows "\<exists>st'. debugAlloc st sz r = Inr (r + sizeof_DebugHeader, st') \<and> tracked st' (r # ps) \<and>
           debugAllocCount st' = debugAllocCount st + 1 \<and>
           (\<exists>d. hdr st' r = Some d \<and> allocNumber d = debugAllocCount st + 1 \<and> size_h d = sz)"
proof -
  let ?m = "hdr st"
  define d where "d = \<lparr>size_h = sz, allocNumber = debugAllocCount st + 1,
             next_h = dbgHead st, prev_h = NULL\<rparr>"
  have df [simp]: "size_h d = sz" "allocNumber d = debugAllocCount st + 1"
    "next_h d = dbgHead st" "prev_h d = NULL"
    by (simp_all add: d_def)
  from T have dist: "distinct ps" and nn: "NULL \<notin> set ps"
    and dom: "dom ?m = set ps" and blk: "dom ?m \<subseteq> dom (blocks st)"
    and fwd: "path (nextf ?m) (dbgHead st) ps NULL"
    and bwd: "path (prevf ?m) (lastp ps) (rev ps) NULL"
    and sum: "debugBytesAlive st = sum_list (map (sizef ?m) ps)"
    unfolding tracked_def by blast+
  have rn: "r \<notin> set ps" using a(3) dom blk by auto
  have hd: "dbgHead st = (if ps = [] then NULL else hd ps)"
    and hd': "dbgHead st \<noteq> NULL \<longrightarrow> hdr st (dbgHead st) \<noteq> None \<and> dbgHead st \<in> set ps"
    using tracked_head[OF T] by blast+
  have hN: "(dbgHead st = NULL) = (ps = [])"
    using hd nn by (cases ps) auto
  have c: "next_h d \<noteq> NULL \<longrightarrow> next_h d \<noteq> r \<and> ?m (next_h d) \<noteq> None"
    using hd' rn by auto
  define st' where "st' = st\<lparr>blocks := (blocks st)(r \<mapsto> sizeof_DebugHeader + sz),
              debugAllocCount := debugAllocCount st + 1,
              hdr := pushed ?m r d, dbgHead := r,
              debugBytesAlive := debugBytesAlive st + sz\<rparr>"
  have R: "debugAlloc st sz r = Inr (r + sizeof_DebugHeader, st')"
    unfolding st'_def d_def using debugAlloc_result[of sz r st] a hd' rn by auto
  have F: "path (nextf (hdr st')) (dbgHead st') (r # ps) NULL"
    using fwd rn by (simp add: st'_def nextf_pushed[where m="hdr st", OF c])
  have B: "path (prevf (hdr st')) (lastp (r # ps)) (rev (r # ps)) NULL"
    using push_bwd[OF bwd dist rn] hN
    by (cases "ps = []") (simp_all add: st'_def prevf_pushed[where m="hdr st", OF c] hd del: rev.simps)
  have S: "debugBytesAlive st' = sum_list (map (sizef (hdr st')) (r # ps))"
    using rn by (simp add: st'_def sizef_pushed[where m="hdr st", OF c] sum)
  have "tracked st' (r # ps)"
    unfolding tracked_def using F B S dist nn rn dom blk a(2)
    by (auto simp: st'_def dom_pushed[where m="hdr st", OF c])
  moreover have "\<exists>d. hdr st' r = Some d \<and> allocNumber d = debugAllocCount st + 1 \<and> size_h d = sz"
    using c by (auto simp: st'_def pushed_def Let_def)
  ultimately show ?thesis using R by (auto simp: st'_def)
qed

subsection \<open>\<^verbatim>\<open>debugRealloc\<close> keeps the invariant\<close>

lemma debugRealloc_result_moved:
  assumes "old + sizeof_DebugHeader \<noteq> NULL" "sz \<noteq> 0" "linked_ok (hdr st) old d"
    "blocks st old = Some bn" "old \<noteq> NULL"
    "r \<noteq> NULL" "r \<noteq> old" "hdr st r = None"
    "sizeof_DebugHeader \<le> sizeof_DebugHeader + sz"
  shows "debugRealloc st (old + sizeof_DebugHeader) sz r = Inr (r + sizeof_DebugHeader,
           st\<lparr>blocks := ((blocks st)(old := None))(r \<mapsto> sizeof_DebugHeader + sz),
              bytes := (\<lambda>a. if a - r < min bn (sizeof_DebugHeader + sz)
                             then bytes st (old + (a - r)) else bytes st a),
              dbgHead := (if prev_h d \<noteq> NULL then dbgHead st else r),
              hdr := moved (hdr st) old r sz,
              debugBytesAlive := debugBytesAlive st - size_h d + sz\<rparr>)"
  using assms
  by (auto simp: debugRealloc_def realloc_def checkPtr_def relink_def set_next_def set_prev_def
      set_size_def moved_def linked_ok_def Let_def)

lemma debugRealloc_result_inplace:
  assumes "old + sizeof_DebugHeader \<noteq> NULL" "sz \<noteq> 0" "hdr st old = Some d"
    "blocks st old = Some bn" "old \<noteq> NULL"
    "sizeof_DebugHeader \<le> sizeof_DebugHeader + sz"
  shows "debugRealloc st (old + sizeof_DebugHeader) sz old = Inr (old + sizeof_DebugHeader,
           st\<lparr>blocks := (blocks st)(old \<mapsto> sizeof_DebugHeader + sz),
              bytes := (\<lambda>a. if a - old < min bn (sizeof_DebugHeader + sz)
                             then bytes st (old + (a - old)) else bytes st a),
              hdr := (hdr st)(old \<mapsto> d\<lparr>size_h := sz\<rparr>),
              debugBytesAlive := debugBytesAlive st - size_h d + sz\<rparr>)"
  using assms
  by (auto simp: debugRealloc_def realloc_def checkPtr_def set_size_def Let_def)

lemma nextf_moved:
  assumes "linked_ok m old d" "m r = None" "r \<noteq> old"
  shows "nextf (moved m old r sz) =
           (if prev_h d = NULL then nextf m else (nextf m)(prev_h d := r))
             (old := NULL, r := next_h d)"
  using assms by (intro ext) (auto simp: linked_ok_def moved_def nextf_def Let_def)

lemma prevf_moved:
  assumes "linked_ok m old d" "m r = None" "r \<noteq> old"
  shows "prevf (moved m old r sz) =
           (if next_h d = NULL then prevf m else (prevf m)(next_h d := r))
             (old := NULL, r := prev_h d)"
  using assms by (intro ext) (auto simp: linked_ok_def moved_def prevf_def Let_def)

lemma sizef_moved:
  assumes "linked_ok m old d" "m r = None" "r \<noteq> old"
  shows "sizef (moved m old r sz) = (sizef m)(old := 0, r := sz)"
  using assms by (intro ext) (auto simp: linked_ok_def moved_def sizef_def Let_def)

lemma dom_moved:
  assumes "linked_ok m old d" "m r = None" "r \<noteq> old"
  shows "dom (moved m old r sz) = insert r (dom m - {old})"
  using assms by (auto simp: linked_ok_def moved_def Let_def split: if_splits)

lemma linked_ok_fresh:
  assumes "linked_ok m old d" "m r = None"
  shows "m old = Some d"
    "prev_h d \<noteq> NULL \<Longrightarrow> prev_h d \<noteq> old \<and> prev_h d \<noteq> r \<and> m (prev_h d) \<noteq> None"
    "next_h d \<noteq> NULL \<Longrightarrow>
       next_h d \<noteq> old \<and> next_h d \<noteq> r \<and> next_h d \<noteq> prev_h d \<and> m (next_h d) \<noteq> None"
  using assms by (auto simp: linked_ok_def)

lemma moved_new:
  assumes "linked_ok m old d" "m r = None" "r \<noteq> old"
  shows "moved m old r sz r = Some (d\<lparr>size_h := sz\<rparr>)"
  using linked_ok_fresh[OF assms(1,2)] assms(3)
  by (cases "prev_h d = NULL"; cases "next_h d = NULL") (auto simp: moved_def Let_def)

lemma moved_old:
  assumes "linked_ok m old d" "m r = None" "r \<noteq> old"
  shows "moved m old r sz old = None"
  using linked_ok_fresh[OF assms(1,2)] assms(3)
  by (cases "prev_h d = NULL"; cases "next_h d = NULL") (auto simp: moved_def Let_def)

lemma moved_other:
  assumes "linked_ok m old d" "m r = None" "r \<noteq> old" "a \<noteq> old" "a \<noteq> r" "a \<noteq> NULL"
  shows "moved m old r sz a =
       map_option (\<lambda>d0. d0\<lparr>next_h := (if a = prev_h d then r else next_h d0),
                            prev_h := (if a = next_h d then r else prev_h d0)\<rparr>) (m a)"
  using linked_ok_fresh[OF assms(1,2)] assms(3-6)
  by (cases "prev_h d = NULL"; cases "next_h d = NULL"; cases "m a")
     (auto simp: moved_def Let_def)

lemma replace_fwd:
  assumes "path nf hd0 (xs @ old # ys) NULL" "distinct (xs @ old # ys)" "r \<notin> set (xs @ old # ys)"
  shows "path ((if xs = [] then nf else nf(last xs := r))(old := v, r := nf old))
           (if xs = [] then r else hd0) (xs @ r # ys) NULL"
  using assms by (cases xs rule: rev_cases) (auto simp: path_append)

lemma replace_bwd:
  assumes "path pf l (rev (xs @ old # ys)) NULL" "distinct (xs @ old # ys)"
    "r \<notin> set (xs @ old # ys)"
  shows "path ((if ys = [] then pf else pf(hd ys := r))(old := v, r := pf old))
           (if ys = [] then r else l) (rev (xs @ r # ys)) NULL"
  using replace_fwd[of pf l "rev ys" old "rev xs" r v] assms
  by (cases "ys = []") (auto simp: last_rev)

lemma debugRealloc_tracked_moved:
  assumes T: "tracked st (xs @ old # ys)" and p: "p = old + sizeof_DebugHeader" "p \<noteq> NULL"
    and a: "sz \<noteq> 0" "r \<noteq> NULL" "blocks st r = None"
      "sizeof_DebugHeader \<le> sizeof_DebugHeader + sz"
  shows "\<exists>st'. debugRealloc st p sz r = Inr (r + sizeof_DebugHeader, st') \<and>
           tracked st' (xs @ r # ys) \<and>
           debugAllocCount st' = debugAllocCount st \<and>
           hdr st' = moved (hdr st) old r sz \<and>
           dbgHead st' = (if xs = [] then r else dbgHead st) \<and>
           debugBytesAlive st' = debugBytesAlive st - sizef (hdr st) old + sz"
proof -
  let ?m = "hdr st"
  let ?nf = "nextf ?m" and ?pf = "prevf ?m"
  from T obtain d where d: "?m old = Some d"
    and nx: "next_h d = (if ys = [] then NULL else hd ys)"
    and pv: "prev_h d = (if xs = [] then NULL else last xs)"
    and nxN: "(next_h d = NULL) = (ys = [])" and pvN: "(prev_h d = NULL) = (xs = [])"
    and lk: "linked_ok ?m old d" and hb: "blocks st old \<noteq> None" and hn: "old \<noteq> NULL"
    by (rule tracked_record)
  from T have dist: "distinct (xs @ old # ys)" and nn: "NULL \<notin> set (xs @ old # ys)"
    and dom: "dom ?m = set (xs @ old # ys)" and blk: "dom ?m \<subseteq> dom (blocks st)"
    and fwd: "path ?nf (dbgHead st) (xs @ old # ys) NULL"
    and bwd: "path ?pf (lastp (xs @ old # ys)) (rev (xs @ old # ys)) NULL"
    and sum: "debugBytesAlive st = sum_list (map (sizef ?m) (xs @ old # ys))"
    unfolding tracked_def by blast+
  have nfh: "?nf old = next_h d" and pfh: "?pf old = prev_h d" and sfh: "sizef ?m old = size_h d"
    using d by (simp_all add: nextf_def prevf_def sizef_def)
  have mr: "?m r = None"
    using a(3) blk by (metis domIff subsetD)
  have ro: "r \<noteq> old"
    using a(3) hb by auto
  have rn: "r \<notin> set (xs @ old # ys)"
    using mr dom by (metis domIff)
  from hb obtain bn where bn: "blocks st old = Some bn" by auto
  define st' where "st' = st\<lparr>blocks := ((blocks st)(old := None))(r \<mapsto> sizeof_DebugHeader + sz),
              bytes := (\<lambda>a. if a - r < min bn (sizeof_DebugHeader + sz)
                             then bytes st (old + (a - r)) else bytes st a),
              dbgHead := (if prev_h d \<noteq> NULL then dbgHead st else r),
              hdr := moved ?m old r sz,
              debugBytesAlive := debugBytesAlive st - size_h d + sz\<rparr>"
  have R: "debugRealloc st p sz r = Inr (r + sizeof_DebugHeader, st')"
    unfolding st'_def p(1)
    using debugRealloc_result_moved[of old sz st d bn r] p a lk bn hn mr ro by simp
  have F: "path (nextf (hdr st')) (dbgHead st') (xs @ r # ys) NULL"
    using replace_fwd[OF fwd dist rn, of NULL] pvN
    by (cases "xs = []") (simp_all add: st'_def nextf_moved[OF lk mr ro] nfh pv)
  have B: "path (prevf (hdr st')) (lastp (xs @ r # ys)) (rev (xs @ r # ys)) NULL"
    using replace_bwd[OF bwd dist rn, of NULL] nxN
    by (cases "ys = []") (simp_all add: st'_def prevf_moved[OF lk mr ro] pfh nx pv lastp_def)
  have S: "debugBytesAlive st' = sum_list (map (sizef (hdr st')) (xs @ r # ys))"
    using dist rn by (simp add: st'_def sizef_moved[OF lk mr ro] sum sfh)
  have "tracked st' (xs @ r # ys)"
    unfolding tracked_def using F B S dist nn rn dom blk a(2)
    by (auto simp: st'_def dom_moved[OF lk mr ro])
  with R pvN show ?thesis unfolding p(1) by (auto simp: st'_def sfh)
qed

lemma debugRealloc_tracked_inplace:
  assumes T: "tracked st (xs @ old # ys)" and p: "p = old + sizeof_DebugHeader" "p \<noteq> NULL"
    and a: "sz \<noteq> 0" "sizeof_DebugHeader \<le> sizeof_DebugHeader + sz"
  shows "\<exists>st' d. debugRealloc st p sz old = Inr (p, st') \<and>
           tracked st' (xs @ old # ys) \<and>
           debugAllocCount st' = debugAllocCount st \<and>
           hdr st old = Some d \<and> hdr st' = (hdr st)(old \<mapsto> d\<lparr>size_h := sz\<rparr>) \<and>
           dbgHead st' = dbgHead st \<and>
           debugBytesAlive st' = debugBytesAlive st - sizef (hdr st) old + sz"
proof -
  let ?m = "hdr st"
  from T obtain d where d: "?m old = Some d"
    and hb: "blocks st old \<noteq> None" and hn: "old \<noteq> NULL"
    by (rule tracked_record)
  from T have dist: "distinct (xs @ old # ys)" and nn: "NULL \<notin> set (xs @ old # ys)"
    and dom: "dom ?m = set (xs @ old # ys)" and blk: "dom ?m \<subseteq> dom (blocks st)"
    and fwd: "path (nextf ?m) (dbgHead st) (xs @ old # ys) NULL"
    and bwd: "path (prevf ?m) (lastp (xs @ old # ys)) (rev (xs @ old # ys)) NULL"
    and sum: "debugBytesAlive st = sum_list (map (sizef ?m) (xs @ old # ys))"
    unfolding tracked_def by blast+
  have nfh: "nextf ?m old = next_h d" and pfh: "prevf ?m old = prev_h d"
    and sfh: "sizef ?m old = size_h d"
    using d by (simp_all add: nextf_def prevf_def sizef_def)
  from hb obtain bn where bn: "blocks st old = Some bn" by auto
  define st' where "st' = st\<lparr>blocks := (blocks st)(old \<mapsto> sizeof_DebugHeader + sz),
              bytes := (\<lambda>a. if a - old < min bn (sizeof_DebugHeader + sz)
                             then bytes st (old + (a - old)) else bytes st a),
              hdr := ?m(old \<mapsto> d\<lparr>size_h := sz\<rparr>),
              debugBytesAlive := debugBytesAlive st - size_h d + sz\<rparr>"
  have R: "debugRealloc st p sz old = Inr (p, st')"
    unfolding st'_def p(1)
    using debugRealloc_result_inplace[of old sz st d bn] p a d bn hn by simp
  have nf': "nextf (hdr st') = nextf ?m" and pf': "prevf (hdr st') = prevf ?m"
    by (simp_all add: st'_def nfh[symmetric] pfh[symmetric])
  have S: "debugBytesAlive st' = sum_list (map (sizef (hdr st')) (xs @ old # ys))"
    using dist by (simp add: st'_def sum sfh)
  have "tracked st' (xs @ old # ys)"
    unfolding tracked_def nf' pf' using fwd bwd S dist nn dom blk d
    by (auto simp: st'_def)
  with R d show ?thesis unfolding p(1) by (auto simp: st'_def sfh)
qed

subsection \<open>What a normal return tells about the arguments\<close>

lemma debugAlloc_Inr:
  assumes "debugAlloc st sz r = Inr (p, st')" "sz \<noteq> 0"
  shows "r \<noteq> NULL" "sizeof_DebugHeader \<le> sizeof_DebugHeader + sz"
  using assms
  by (auto simp: debugAlloc_def malloc_def checkPtr_def Let_def split: if_splits)

lemma debugFree_Inr:
  assumes "debugFree st p = Inr st'" "p \<noteq> NULL"
  shows "hdr st (p - sizeof_DebugHeader) \<noteq> None"
  using assms by (auto simp: debugFree_def Let_def split: option.splits)

lemma debugRealloc_Inr:
  assumes "debugRealloc st p sz r = Inr (q, st')" "p \<noteq> NULL" "sz \<noteq> 0"
  shows "hdr st (p - sizeof_DebugHeader) \<noteq> None" "r \<noteq> NULL"
proof -
  let ?old = "p - sizeof_DebugHeader"
  from assms show h: "hdr st ?old \<noteq> None"
    by (auto simp: debugRealloc_def Let_def split: option.splits)
  then obtain d where d: "hdr st ?old = Some d" by auto
  from assms d show r: "r \<noteq> NULL"
    by (auto simp: debugRealloc_def realloc_def malloc_def checkPtr_def Let_def
        split: option.splits if_splits)
qed

lemma debugRealloc_Inr_nowrap:
  assumes "debugRealloc st p sz r = Inr (q, st')" "p \<noteq> NULL" "sz \<noteq> 0"
    "p - sizeof_DebugHeader \<noteq> NULL"
  shows "sizeof_DebugHeader \<le> sizeof_DebugHeader + sz"
proof (rule ccontr)
  let ?old = "p - sizeof_DebugHeader"
  assume w: "\<not> sizeof_DebugHeader \<le> sizeof_DebugHeader + sz"
  from debugRealloc_Inr[OF assms(1-3)] obtain d where d: "hdr st ?old = Some d" and r: "r \<noteq> NULL"
    by auto
  show False
  proof (cases "blocks st ?old")
    case None
    with assms d show False
      by (simp add: debugRealloc_def realloc_def Let_def)
  next
    case (Some bn)
    with assms d r w show False
      by (cases "r = ?old")
        (simp_all add: debugRealloc_def realloc_def checkPtr_def relink_def set_size_def Let_def)
  qed
qed

subsection \<open>Every call keeps the invariant\<close>

lemma step_tracked:
  assumes T: "tracked st ps" and E: "env_ok st x" and S: "step st x = Inr (st', ns)"
  shows "\<exists>ps'. tracked st' ps'"
proof (cases x)
  case (Alloc sz r)
  show ?thesis
  proof (cases "sz = 0")
    case True
    with S Alloc T show ?thesis
      by (auto simp: debugAlloc_def)
  next
    case False
    from S Alloc obtain p where A: "debugAlloc st sz r = Inr (p, st')"
      by (auto split: sum.splits)
    from debugAlloc_Inr[OF A False] E Alloc
    have "r \<noteq> NULL" "sizeof_DebugHeader \<le> sizeof_DebugHeader + sz" "blocks st r = None"
      by auto
    from debugAlloc_tracked[OF T False this(1,3,2)] A show ?thesis
      by auto
  qed
next
  case (Free p)
  with S have F: "debugFree st p = Inr st'"
    by (auto split: sum.splits)
  show ?thesis
  proof (cases "p = NULL")
    case True
    with F T show ?thesis by (auto simp: debugFree_def)
  next
    case False
    from debugFree_Inr[OF F False] T have "p - sizeof_DebugHeader \<in> set ps"
      unfolding tracked_def by blast
    then obtain xs ys where ps: "ps = xs @ (p - sizeof_DebugHeader) # ys"
      by (auto simp: in_set_conv_decomp)
    from debugFree_tracked[OF T[unfolded ps], of p] False F show ?thesis
      by auto
  qed
next
  case (Realloc p sz r)
  with S obtain q where R: "debugRealloc st p sz r = Inr (q, st')"
    by (auto split: sum.splits)
  show ?thesis
  proof (cases "p = NULL")
    case pn: True
    show ?thesis
    proof (cases "sz = 0")
      case True
      with R pn T show ?thesis
        by (auto simp: debugRealloc_def debugAlloc_def)
    next
      case False
      from R pn have A: "debugAlloc st sz r = Inr (q, st')"
        by (simp add: debugRealloc_def)
      from debugAlloc_Inr[OF A False] E Realloc pn
      have "r \<noteq> NULL" "sizeof_DebugHeader \<le> sizeof_DebugHeader + sz" "blocks st r = None"
        by auto
      from debugAlloc_tracked[OF T False this(1,3,2)] A show ?thesis
        by auto
    qed
  next
    case pn: False
    show ?thesis
    proof (cases "sz = 0")
      case True
      with R pn have F: "debugFree st p = Inr st'"
        by (auto simp: debugRealloc_def split: sum.splits)
      from debugFree_Inr[OF F pn] T have "p - sizeof_DebugHeader \<in> set ps"
        unfolding tracked_def by blast
      then obtain xs ys where ps: "ps = xs @ (p - sizeof_DebugHeader) # ys"
        by (auto simp: in_set_conv_decomp)
      from debugFree_tracked[OF T[unfolded ps], of p] pn F show ?thesis
        by auto
    next
      case False
      from debugRealloc_Inr[OF R pn False]
      have h: "hdr st (p - sizeof_DebugHeader) \<noteq> None" and r: "r \<noteq> NULL"
        by blast+
      from h T have m: "p - sizeof_DebugHeader \<in> set ps"
        unfolding tracked_def by blast
      with T have "p - sizeof_DebugHeader \<noteq> NULL"
        unfolding tracked_def by metis
      from debugRealloc_Inr_nowrap[OF R pn False this]
      have w: "sizeof_DebugHeader \<le> sizeof_DebugHeader + sz" .
      from m obtain xs ys where ps: "ps = xs @ (p - sizeof_DebugHeader) # ys"
        by (auto simp: in_set_conv_decomp)
      show ?thesis
      proof (cases "r = p - sizeof_DebugHeader")
        case True
        from debugRealloc_tracked_inplace[OF T[unfolded ps], of p sz] pn False w R True
        show ?thesis by auto
      next
        case neq: False
        with E Realloc r have "blocks st r = None" by auto
        from debugRealloc_tracked_moved[OF T[unfolded ps], of p sz r] pn False r this w R
        show ?thesis by auto
      qed
    qed
  qed
qed

lemma tracked_init: "tracked init_state []"
  by (simp add: tracked_def init_state_def)

lemma run_tracked:
  assumes "tracked st ps" "ops_ok st xs" "run st xs = Inr (st', ns)"
  shows "\<exists>ps'. tracked st' ps'"
  using assms
proof (induction xs arbitrary: st ps ns)
  case Nil
  then show ?case by auto
next
  case (Cons x xs)
  from Cons.prems(3) obtain st1 ns1 ns2 where s: "step st x = Inr (st1, ns1)"
    and r: "run st1 xs = Inr (st', ns2)"
    by (auto split: sum.splits)
  from Cons.prems(2) s have e: "env_ok st x" and o: "ops_ok st1 xs"
    by auto
  from step_tracked[OF Cons.prems(1) e s] obtain ps1 where "tracked st1 ps1" ..
  from Cons.IH[OF this o r] show ?case .
qed

subsection \<open>The invariant and the list read from \<^verbatim>\<open>dbgHead\<close>\<close>

lemma walk_path:
  assumes "path (nextf m) p ps NULL" "set ps \<subseteq> dom m" "NULL \<notin> set ps"
  shows "walk m p = Some (map (\<lambda>a. (a, the (m a))) ps)"
  using assms
proof (induction ps arbitrary: p)
  case Nil
  then show ?case by (simp add: walk.simps)
next
  case (Cons a as)
  from Cons.prems obtain d where d: "m a = Some d" by auto
  have "nextf m a = next_h d"
    using d by (simp add: nextf_def)
  with Cons.prems have "path (nextf m) (next_h d) as NULL"
    by simp
  from Cons.IH[OF this] Cons.prems
  have "walk m (next_h d) = Some (map (\<lambda>a. (a, the (m a))) as)" by simp
  with Cons.prems d show ?case
    by (subst walk.simps) simp
qed

lemma tracked_walk:
  assumes "tracked st ps"
  shows "walk (hdr st) (dbgHead st) = Some (map (\<lambda>a. (a, the (hdr st a))) ps)"
  using assms unfolding tracked_def by (intro walk_path) auto

lemma unat_sum_list:
  "unat (sum_list (ws :: size_t list)) = sum_list (map unat ws) mod 2 ^ 64"
  by (induction ws) (simp_all add: unat_word_ariths mod_simps)

lemma tracked_sum:
  assumes "tracked st ps"
  shows "debugBytesAlive st =
           sum_list (map (\<lambda>r. size_h (snd r)) (map (\<lambda>a. (a, the (hdr st a))) ps))"
proof -
  from assms have s: "debugBytesAlive st = sum_list (map (sizef (hdr st)) ps)"
    and dom: "dom (hdr st) = set ps"
    unfolding tracked_def by blast+
  have "map (sizef (hdr st)) ps = map (\<lambda>a. size_h (the (hdr st a))) ps"
    using dom by (auto simp: sizef_def split: option.splits)
  with s show ?thesis by (simp add: comp_def)
qed

lemma tracked_dll_valid:
  assumes T: "tracked st ps"
  shows "dll_valid st"
proof -
  let ?rs = "map (\<lambda>a. (a, the (hdr st a))) ps"
  have hd: "case ?rs of [] \<Rightarrow> True | (a, d) # _ \<Rightarrow> prev_h d = NULL"
  proof (cases ps)
    case Nil
    then show ?thesis by simp
  next
    case (Cons a as)
    with T have T': "tracked st ([] @ a # as)" by simp
    obtain d where "hdr st a = Some d" "(prev_h d = NULL) = (([]::addr list) = [])"
      by (rule tracked_record[OF T'])
    with Cons show ?thesis by simp
  qed
  have nb: "(next_h d \<noteq> NULL \<longrightarrow>
               (case hdr st (next_h d) of None \<Rightarrow> False | Some d' \<Rightarrow> prev_h d' = a)) \<and>
            (prev_h d \<noteq> NULL \<longrightarrow>
               (case hdr st (prev_h d) of None \<Rightarrow> False | Some d' \<Rightarrow> next_h d' = a))"
    if ad: "(a, d) \<in> set ?rs" for a d
  proof -
    from ad have a: "a \<in> set ps" and d: "d = the (hdr st a)" by auto
    from a obtain xs ys where ps: "ps = xs @ a # ys"
      by (auto simp: in_set_conv_decomp)
    obtain d0 where d0: "hdr st a = Some d0"
      and nx0: "next_h d0 = (if ys = [] then NULL else hd ys)"
      and pv0: "prev_h d0 = (if xs = [] then NULL else last xs)"
      by (rule tracked_record[OF T[unfolded ps]])
    from d d0 have dd: "d0 = d" by simp
    have "case hdr st (next_h d) of None \<Rightarrow> False | Some d' \<Rightarrow> prev_h d' = a"
      if n: "next_h d \<noteq> NULL"
    proof -
      from n nx0 dd obtain b ys' where ys: "ys = b # ys'" by (cases ys) auto
      with T ps have T': "tracked st ((xs @ [a]) @ b # ys')" by simp
      obtain db where "hdr st b = Some db"
        "prev_h db = (if xs @ [a] = [] then NULL else last (xs @ [a]))"
        by (rule tracked_record[OF T'])
      with nx0 dd ys show ?thesis by simp
    qed
    moreover have "case hdr st (prev_h d) of None \<Rightarrow> False | Some d' \<Rightarrow> next_h d' = a"
      if n: "prev_h d \<noteq> NULL"
    proof -
      from n pv0 dd obtain b xs' where xs: "xs = xs' @ [b]"
        by (cases xs rule: rev_cases) auto
      with T ps have T': "tracked st (xs' @ b # (a # ys))" by simp
      obtain db where "hdr st b = Some db"
        "next_h db = (if a # ys = [] then NULL else hd (a # ys))"
        by (rule tracked_record[OF T'])
      with pv0 dd xs show ?thesis by simp
    qed
    ultimately show ?thesis by blast
  qed
  show ?thesis
    unfolding dll_valid_def tracked_walk[OF T] using hd nb by auto
qed

lemma unat_sum_list_small:
  assumes "sum_list (map (\<lambda>x. unat (f x)) xs) < 2 ^ 64"
  shows "unat (sum_list (map f xs) :: size_t) = sum_list (map (\<lambda>x. unat (f x)) xs)"
  using assms unat_sum_list[of "map f xs"] by (simp add: comp_def)

text \<open>The definitions to unfold when a call is evaluated on concrete arguments.\<close>

lemmas mem_defs = debugAlloc_def malloc_def checkPtr_def set_prev_def debugFree_def free_def
  set_next_def debugRealloc_def realloc_def relink_def set_size_def seq_at_def init_state_def
  sizeof_DebugHeader_def Let_def

subsection \<open>The allocation counter\<close>

lemma set_field_count:
  "set_next st h v = Inr st' \<Longrightarrow> debugAllocCount st' = debugAllocCount st"
  "set_prev st h v = Inr st' \<Longrightarrow> debugAllocCount st' = debugAllocCount st"
  "set_size st h w = Inr st' \<Longrightarrow> debugAllocCount st' = debugAllocCount st"
  "free st h = Inr st' \<Longrightarrow> debugAllocCount st' = debugAllocCount st"
  by (auto simp: set_next_def set_prev_def set_size_def free_def split: option.splits if_splits)

lemma realloc_count:
  "realloc st p n r = Inr (q, st') \<Longrightarrow> debugAllocCount st' = debugAllocCount st"
  by (auto simp: realloc_def malloc_def split: option.splits if_splits)

lemma relink_count:
  "relink st new = Inr st' \<Longrightarrow> debugAllocCount st' = debugAllocCount st"
  by (auto simp: relink_def dest!: set_field_count split: option.splits if_splits sum.splits)

lemma debugFree_count:
  assumes "debugFree st p = Inr st'"
  shows "debugAllocCount st' = debugAllocCount st"
  using assms
  by (auto simp: debugFree_def Let_def dest!: set_field_count
      split: option.splits if_splits sum.splits)

lemma debugAlloc_count:
  assumes "debugAlloc st sz r = Inr (p, st')" "sz \<noteq> 0"
  shows "debugAllocCount st' = debugAllocCount st + 1" "seq_at st' p = [debugAllocCount st + 1]"
  using assms
  by (auto simp: debugAlloc_def malloc_def checkPtr_def set_prev_def seq_at_def Let_def
      split: option.splits if_splits)

lemma debugRealloc_count:
  assumes "debugRealloc st p sz r = Inr (q, st')" "p \<noteq> NULL"
  shows "debugAllocCount st' = debugAllocCount st"
proof (cases "sz = 0")
  case True
  with assms show ?thesis
    by (auto simp: debugRealloc_def dest: debugFree_count split: sum.splits)
next
  case False
  with assms show ?thesis
    by (auto simp: debugRealloc_def Let_def checkPtr_def
        dest!: set_field_count realloc_count relink_count
        split: option.splits if_splits sum.splits)
qed

lemma step_count:
  assumes "step st x = Inr (st', ns)"
  shows "(ns = [] \<and> debugAllocCount st' = debugAllocCount st) \<or>
         (ns = [debugAllocCount st + 1] \<and> debugAllocCount st' = debugAllocCount st + 1)"
proof (cases x)
  case (Alloc sz r)
  show ?thesis
  proof (cases "sz = 0")
    case True
    with assms Alloc show ?thesis by (auto simp: debugAlloc_def)
  next
    case False
    from assms Alloc False obtain p where a: "debugAlloc st sz r = Inr (p, st')"
      and n: "ns = seq_at st' p"
      by (auto split: sum.splits)
    from debugAlloc_count[OF a False] n show ?thesis by simp
  qed
next
  case (Free p)
  with assms show ?thesis
    by (auto dest: debugFree_count split: sum.splits)
next
  case (Realloc p sz r)
  from assms Realloc obtain q where r: "debugRealloc st p sz r = Inr (q, st')"
    and n: "ns = (if p = NULL \<and> sz \<noteq> 0 then seq_at st' q else [])"
    by (auto split: sum.splits)
  show ?thesis
  proof (cases "p = NULL")
    case pn: True
    show ?thesis
    proof (cases "sz = 0")
      case True
      with r n pn show ?thesis by (auto simp: debugRealloc_def debugAlloc_def)
    next
      case False
      from r pn have a: "debugAlloc st sz r = Inr (q, st')"
        by (simp add: debugRealloc_def)
      from debugAlloc_count[OF a False] n pn False show ?thesis by simp
    qed
  next
    case False
    with debugRealloc_count[OF r False] n show ?thesis by simp
  qed
qed

lemma run_count:
  assumes "run st xs = Inr (st', ns)"
  shows "ns = map (\<lambda>i. debugAllocCount st + of_nat (Suc i)) [0..<length ns] \<and>
         debugAllocCount st' = debugAllocCount st + of_nat (length ns)"
  using assms
proof (induction xs arbitrary: st ns)
  case Nil
  then show ?case by auto
next
  case (Cons x xs)
  from Cons.prems obtain st1 ns1 ns2 where s: "step st x = Inr (st1, ns1)"
    and r: "run st1 xs = Inr (st', ns2)" and ns: "ns = ns1 @ ns2"
    by (auto split: sum.splits)
  let ?c = "debugAllocCount st"
  from Cons.IH[OF r]
  have ih: "ns2 = map (\<lambda>i. debugAllocCount st1 + of_nat (Suc i)) [0..<length ns2]"
    and c': "debugAllocCount st' = debugAllocCount st1 + of_nat (length ns2)"
    by blast+
  from step_count[OF s] show ?case
  proof
    assume "ns1 = [] \<and> debugAllocCount st1 = ?c"
    with ih c' ns show ?thesis by simp
  next
    assume a: "ns1 = [?c + 1] \<and> debugAllocCount st1 = ?c + 1"
    have "map (\<lambda>i. ?c + of_nat (Suc i)) [0..<Suc (length ns2)] =
            (?c + 1) # map (\<lambda>i. ?c + 1 + of_nat (Suc i)) [0..<length ns2]"
      unfolding map_upt_Suc by (simp add: add.assoc)
    moreover from a ih ns have "ns = (?c + 1) # map (\<lambda>i. ?c + 1 + of_nat (Suc i)) [0..<length ns2]"
      by simp
    moreover from a ns have "length ns = Suc (length ns2)" by simp
    ultimately show ?thesis
      using a c' by (simp add: add.assoc)
  qed
qed

lemma of_nat_less_word64:
  assumes "i < j" "j < 2 ^ 64"
  shows "(of_nat i :: size_t) < of_nat j"
  using assms by (simp add: of_nat_word_less_iff take_bit_nat_eq_self)

lemma seq_numbers_sorted:
  assumes "k < 2 ^ 64"
  shows "sorted_wrt (<) (map (\<lambda>i. of_nat (Suc i) :: size_t) [0..<k])"
proof -
  have "sorted_wrt (\<lambda>i j. (of_nat (Suc i) :: size_t) < of_nat (Suc j)) [0..<k]"
  proof (rule sorted_wrt_mono_rel[where P = "(<)"])
    fix i j assume "i \<in> set [0..<k]" "j \<in> set [0..<k]" "i < j"
    with assms show "(of_nat (Suc i) :: size_t) < of_nat (Suc j)"
      by (intro of_nat_less_word64) auto
  qed simp
  then show ?thesis by (simp add: sorted_wrt_map)
qed

lemma run_append:
  "run st (xs @ ys) =
     (case run st xs of
        Inl e \<Rightarrow> Inl e
      | Inr (st1, ns) \<Rightarrow>
          (case run st1 ys of Inl e \<Rightarrow> Inl e | Inr (st2, ms) \<Rightarrow> Inr (st2, ns @ ms)))"
  by (induction xs arbitrary: st) (auto split: sum.splits)

lemma ops_ok_append:
  "ops_ok st (xs @ ys) =
     (ops_ok st xs \<and> (case run st xs of Inl e \<Rightarrow> True | Inr (st1, ns) \<Rightarrow> ops_ok st1 ys))"
  by (induction xs arbitrary: st) (auto split: sum.splits)

lemma one_round:
  "run (init_state\<lparr>debugAllocCount := c\<rparr>) [Alloc 1 4096, Free 4128] =
     Inr (init_state\<lparr>debugAllocCount := c + 1\<rparr>, [c + 1])"
  "ops_ok (init_state\<lparr>debugAllocCount := c\<rparr>) [Alloc 1 4096, Free 4128]"
  by (simp_all add: mem_defs)

lemma rounds:
  "run (init_state\<lparr>debugAllocCount := c\<rparr>) (concat (replicate n [Alloc 1 4096, Free 4128])) =
     Inr (init_state\<lparr>debugAllocCount := c + of_nat n\<rparr>,
          map (\<lambda>i. c + of_nat (Suc i)) [0..<n]) \<and>
   ops_ok (init_state\<lparr>debugAllocCount := c\<rparr>) (concat (replicate n [Alloc 1 4096, Free 4128]))"
proof (induction n arbitrary: c)
  case 0
  show ?case by simp
next
  case (Suc n)
  have "concat (replicate (Suc n) [Alloc 1 4096, Free 4128]) =
          [Alloc 1 4096, Free 4128] @ concat (replicate n [Alloc 1 4096, Free 4128])"
    by simp
  then show ?case
    unfolding map_upt_Suc
    by (simp only: run_append ops_ok_append one_round Suc.IH sum.case prod.case)
       (simp add: add.assoc)
qed

lemma rounds_init:
  "run init_state (concat (replicate n [Alloc 1 4096, Free 4128])) =
     Inr (init_state\<lparr>debugAllocCount := of_nat n\<rparr>, map (\<lambda>i. of_nat (Suc i)) [0..<n])"
  "ops_ok init_state (concat (replicate n [Alloc 1 4096, Free 4128]))"
  using rounds[of 0 n] by (simp_all add: init_state_def)

lemma wrapped_not_distinct:
  assumes "2 ^ 64 < n"
  shows "\<not> distinct (map (\<lambda>i. of_nat (Suc i) :: size_t) [0..<n])"
proof
  assume "distinct (map (\<lambda>i. of_nat (Suc i) :: size_t) [0..<n])"
  then have "inj_on (\<lambda>i. of_nat (Suc i) :: size_t) {0..<n}"
    by (simp add: distinct_map)
  moreover have "(of_nat (Suc 0) :: size_t) = of_nat (Suc (2 ^ 64))"
    by simp
  ultimately have "(0::nat) = 2 ^ 64"
    using assms by (auto dest!: inj_onD[where x = 0 and y = "2 ^ 64"])
  then show False by simp
qed

subsection \<open>The frame of \<^verbatim>\<open>debugRealloc\<close>\<close>

lemma tracked_neighbours:
  assumes T: "tracked st ps" and o: "hdr st old = Some d" and a: "hdr st a = Some d0"
  shows "(next_h d0 = old) = (a = prev_h d)" "(prev_h d0 = old) = (a = next_h d)"
proof -
  from T o a have ops: "old \<in> set ps" and aps: "a \<in> set ps"
    unfolding tracked_def by blast+
  from T ops aps have on: "old \<noteq> NULL" and an: "a \<noteq> NULL"
    unfolding tracked_def by metis+
  from ops obtain xs ys where ps: "ps = xs @ old # ys"
    by (auto simp: in_set_conv_decomp)
  from aps obtain xs' ys' where ps': "ps = xs' @ a # ys'"
    by (auto simp: in_set_conv_decomp)
  obtain e where e: "hdr st old = Some e"
    and enx: "next_h e = (if ys = [] then NULL else hd ys)"
    and epv: "prev_h e = (if xs = [] then NULL else last xs)"
    by (rule tracked_record[OF T[unfolded ps]])
  obtain e0 where e0: "hdr st a = Some e0"
    and e0nx: "next_h e0 = (if ys' = [] then NULL else hd ys')"
    and e0pv: "prev_h e0 = (if xs' = [] then NULL else last xs')"
    by (rule tracked_record[OF T[unfolded ps']])
  from e o e0 a have [simp]: "e = d" "e0 = d0" by simp_all
  show "(next_h d0 = old) = (a = prev_h d)"
  proof
    assume "next_h d0 = old"
    with e0nx on obtain ys'' where "ys' = old # ys''"
      by (cases ys') (auto split: if_splits)
    with T ps' have T': "tracked st ((xs' @ [a]) @ old # ys'')" by simp
    obtain f where "hdr st old = Some f"
      "prev_h f = (if xs' @ [a] = [] then NULL else last (xs' @ [a]))"
      by (rule tracked_record[OF T'])
    with o show "a = prev_h d" by simp
  next
    assume "a = prev_h d"
    with epv an obtain xs0 where "xs = xs0 @ [a]"
      by (cases xs rule: rev_cases) (auto split: if_splits)
    with T ps have T': "tracked st (xs0 @ a # (old # ys))" by simp
    obtain f where "hdr st a = Some f"
      "next_h f = (if old # ys = [] then NULL else hd (old # ys))"
      by (rule tracked_record[OF T'])
    with a show "next_h d0 = old" by simp
  qed
  show "(prev_h d0 = old) = (a = next_h d)"
  proof
    assume "prev_h d0 = old"
    with e0pv on obtain xs'' where "xs' = xs'' @ [old]"
      by (cases xs' rule: rev_cases) (auto split: if_splits)
    with T ps' have T': "tracked st (xs'' @ old # (a # ys'))" by simp
    obtain f where "hdr st old = Some f"
      "next_h f = (if a # ys' = [] then NULL else hd (a # ys'))"
      by (rule tracked_record[OF T'])
    with o show "a = next_h d" by simp
  next
    assume "a = next_h d"
    with enx an obtain ys0 where "ys = a # ys0"
      by (cases ys) (auto split: if_splits)
    with T ps have T': "tracked st ((xs @ [old]) @ a # ys0)" by simp
    obtain f where "hdr st a = Some f"
      "prev_h f = (if xs @ [old] = [] then NULL else last (xs @ [old]))"
      by (rule tracked_record[OF T'])
    with a show "prev_h d0 = old" by simp
  qed
qed

lemma tracked_head_is:
  assumes T: "tracked st (xs @ old # ys)"
  shows "(dbgHead st = old) = (xs = [])"
proof -
  from T have d: "distinct (xs @ old # ys)" unfolding tracked_def by blast
  from tracked_head(1)[OF T] d show ?thesis
    by (cases xs) auto
qed

lemma redirect_same [simp]: "redirect a a = (\<lambda>d. d)"
  by (rule ext) (simp add: redirect_def)

subsection \<open>Releasing what was just allocated\<close>

lemma debugAlloc_ptr:
  assumes "debugAlloc st sz r = Inr (p, st0)" "sz \<noteq> 0"
  shows "p = r + sizeof_DebugHeader"
  using assms
  by (auto simp: debugAlloc_def malloc_def checkPtr_def set_prev_def Let_def
      split: if_splits option.splits)

lemma debugFree_after_debugAlloc:
  assumes A: "debugAlloc st sz r = Inr (p, st0)" and sz: "sz \<noteq> 0" and pn: "p \<noteq> NULL"
  shows "\<exists>st2. debugFree (st0\<lparr>bytes := b\<rparr>) p = Inr st2 \<and>
           debugBytesAlive st2 = debugBytesAlive st"
proof -
  from debugAlloc_Inr[OF A sz] have r: "r \<noteq> NULL"
    and w: "sizeof_DebugHeader \<le> sizeof_DebugHeader + sz" by blast+
  from w have nw: "\<not> sizeof_DebugHeader + sz < sizeof_DebugHeader" by simp
  from debugAlloc_ptr[OF A sz] have p: "p = r + sizeof_DebugHeader" .
  consider (fresh) "dbgHead st \<noteq> NULL \<longrightarrow> dbgHead st \<noteq> r \<and> hdr st (dbgHead st) \<noteq> None"
    | (dangling) "dbgHead st \<noteq> NULL" "dbgHead st \<noteq> r" "hdr st (dbgHead st) = None"
    | (aliased) "dbgHead st = r"
    by blast
  then show ?thesis
  proof cases
    case fresh
    from debugAlloc_result[OF sz r w fresh] A
    have st0: "st0 = st\<lparr>blocks := (blocks st)(r \<mapsto> sizeof_DebugHeader + sz),
              debugAllocCount := debugAllocCount st + 1,
              hdr := pushed (hdr st) r \<lparr>size_h = sz, allocNumber = debugAllocCount st + 1,
                       next_h = dbgHead st, prev_h = NULL\<rparr>,
              dbgHead := r,
              debugBytesAlive := debugBytesAlive st + sz\<rparr>"
      by simp
    show ?thesis
    proof (cases "dbgHead st = NULL")
      case True
      then show ?thesis
        unfolding st0 p using r pn[unfolded p]
        by (simp add: debugFree_def set_next_def set_prev_def free_def pushed_def Let_def)
    next
      case False
      with fresh obtain dh where "hdr st (dbgHead st) = Some dh" "dbgHead st \<noteq> r"
        by auto
      with False show ?thesis
        unfolding st0 p using r pn[unfolded p]
        by (simp add: debugFree_def set_next_def set_prev_def free_def pushed_def Let_def)
    qed
  next
    case dangling
    with A sz r nw show ?thesis
      by (simp add: debugAlloc_def malloc_def checkPtr_def set_prev_def Let_def)
  next
    case aliased
    with A sz r nw
    have st0: "st0 = st\<lparr>blocks := (blocks st)(r \<mapsto> sizeof_DebugHeader + sz),
              debugAllocCount := debugAllocCount st + 1,
              hdr := (hdr st)(r \<mapsto> \<lparr>size_h = sz, allocNumber = debugAllocCount st + 1,
                       next_h = r, prev_h = r\<rparr>),
              dbgHead := r,
              debugBytesAlive := debugBytesAlive st + sz\<rparr>"
      by (simp add: debugAlloc_def malloc_def checkPtr_def set_prev_def Let_def)
    show ?thesis
      unfolding st0 p using r pn[unfolded p]
      by (simp add: debugFree_def set_next_def set_prev_def free_def Let_def)
  qed
qed

subsection \<open>The leak report on a state that satisfies the invariant\<close>

lemma leak_loop_path:
  assumes "path (nextf m) p ps NULL" "set ps \<subseteq> dom m" "NULL \<notin> set ps"
  shows "leak_loop m p out = Some (Inr (out @ concat (map (\<lambda>a. leak_line (the (m a))) ps)))"
  using assms
proof (induction ps arbitrary: p out)
  case Nil
  then show ?case by (simp add: leak_loop.simps)
next
  case (Cons a as)
  from Cons.prems obtain d where d: "m a = Some d" by auto
  have "nextf m a = next_h d"
    using d by (simp add: nextf_def)
  with Cons.prems have "path (nextf m) (next_h d) as NULL"
    by simp
  from Cons.IH[OF this, of "out @ leak_line d"] Cons.prems
  have "leak_loop m (next_h d) (out @ leak_line d) =
          Some (Inr (out @ leak_line d @ concat (map (\<lambda>a. leak_line (the (m a))) as)))"
    by simp
  with Cons.prems d show ?case
    by (subst leak_loop.simps) simp
qed

lemma debugReportLeaks_tracked:
  assumes T: "tracked st ps"
  shows "debugReportLeaks st = Some (Inr (st\<lparr>stderr := stderr st @
           (if ps = [] then ''No memory leaks detected.'' @ [CHR 0x0A]
            else ''MEMORY LEAKS DETECTED:'' @ [CHR 0x0A] @
                 concat (map (\<lambda>a. leak_line (the (hdr st a))) ps) @
                 ''Total leaked: '' @ dec (unat (debugBytesAlive st)) @ '' bytes'' @
                 [CHR 0x0A])\<rparr>))"
proof -
  from T have fwd: "path (nextf (hdr st)) (dbgHead st) ps NULL"
    and sub: "set ps \<subseteq> dom (hdr st)" and nn: "NULL \<notin> set ps"
    unfolding tracked_def by auto
  from tracked_head(1)[OF T] nn have h: "(dbgHead st = NULL) = (ps = [])"
    by (cases ps) auto
  show ?thesis
    unfolding debugReportLeaks_def leak_loop_path[OF fwd sub nn] using h
    by simp
qed

subsection \<open>Zero-size requests and null pointers\<close>

lemma xfree_is_debugFree: "xfree = debugFree"
  by (intro ext) (simp add: xfree_def debugFree_def)

text \<open>
  C1. The specification: on a pointer that \<^verbatim>\<open>SafeAllocator\<close> returned, \<^verbatim>\<open>xfree\<close> passes the
  pointer to the library's \<^verbatim>\<open>free\<close> and leaves the tracking state alone. The code of
  \<^verbatim>\<open>xfree\<close> is the body of \<^verbatim>\<open>debugFree\<close>: for the pointer 4096 that \<^verbatim>\<open>xalloc(8)\<close>
  returned it reads a \<^verbatim>\<open>DebugHeader\<close> at 4096 - 32, where none is stored, which is
  undefined behaviour; a pass-through would have released the block.
\<close>

theorem xfree_after_xalloc_undefined:
  "alloc_f SafeAllocator init_state 8 4096 = Inr (4096, init_state\<lparr>blocks := [4096 \<mapsto> 8]\<rparr>)
   \<and> free_f SafeAllocator (init_state\<lparr>blocks := [4096 \<mapsto> 8]\<rparr>) 4096 = Inl Undefined
   \<and> free (init_state\<lparr>blocks := [4096 \<mapsto> 8]\<rparr>) 4096 = Inr init_state"
  by (simp add: SafeAllocator_def xalloc_def malloc_def checkPtr_def xfree_def free_def
      init_state_def sizeof_DebugHeader_def)

text \<open>
  C5, as stated, fails for \<^verbatim>\<open>BasicAllocator\<close>, whose \<^verbatim>\<open>alloc\<close> is the library's
  \<^verbatim>\<open>malloc\<close> itself: a request of size 0 reaches the library, and where the library
  answers it with a block the result is not empty.
\<close>

theorem basic_alloc_zero_counterexample:
  "alloc_f BasicAllocator init_state 0 4096 = Inr (4096, init_state\<lparr>blocks := [4096 \<mapsto> 0]\<rparr>)
   \<and> alloc_f BasicAllocator init_state 0 4096 \<noteq> Inr (NULL, init_state)"
  by (simp add: BasicAllocator_def malloc_def init_state_def)

text \<open>
  C5, amended: for \<^verbatim>\<open>SafeAllocator\<close> and \<^verbatim>\<open>DebugAllocator\<close>, allocating size 0 returns
  the null pointer and the state it was called in, whatever the library would have
  answered: the library is not consulted and nothing is changed.
\<close>

theorem alloc_zero_safe_debug:
  "alloc_f SafeAllocator st 0 r = Inr (NULL, st) \<and> alloc_f DebugAllocator st 0 r = Inr (NULL, st)"
  by (simp add: SafeAllocator_def DebugAllocator_def xalloc_def debugAlloc_def)

text \<open>
  C6, as stated, fails. For \<^verbatim>\<open>SafeAllocator\<close>, \<^verbatim>\<open>xrealloc(p, 0)\<close> forwards to the
  library's \<^verbatim>\<open>realloc\<close> and treats its null answer as fatal: the call panics where the
  specification promises no failure. For \<^verbatim>\<open>BasicAllocator\<close>, whose \<^verbatim>\<open>realloc\<close> is the library's
  own, a library that answers a size-0 request with a block makes the result
  non-empty, while \<^verbatim>\<open>free(p)\<close> leaves nothing allocated.
\<close>

theorem resize_zero_counterexample:
  "alloc_f SafeAllocator init_state 8 4096 = Inr (4096, init_state\<lparr>blocks := [4096 \<mapsto> 8]\<rparr>) \<and>
   realloc_f SafeAllocator (init_state\<lparr>blocks := [4096 \<mapsto> 8]\<rparr>) 4096 0 NULL =
     Inl (Panic 37 ''out of memory'') \<and>
   alloc_f BasicAllocator init_state 8 4096 = Inr (4096, init_state\<lparr>blocks := [4096 \<mapsto> 8]\<rparr>) \<and>
   free_f BasicAllocator (init_state\<lparr>blocks := [4096 \<mapsto> 8]\<rparr>) 4096 = Inr init_state \<and>
   (case realloc_f BasicAllocator (init_state\<lparr>blocks := [4096 \<mapsto> 8]\<rparr>) 4096 0 8192 of
      Inl e \<Rightarrow> False
    | Inr (q, st') \<Rightarrow> q = 8192 \<and> q \<noteq> NULL \<and> blocks st' = [8192 \<mapsto> 0])"
  by (simp add: SafeAllocator_def BasicAllocator_def xalloc_def xrealloc_def malloc_def free_def
      realloc_def checkPtr_def init_state_def)

text \<open>
  C6, amended: for \<^verbatim>\<open>DebugAllocator\<close> and every non-null pointer \<open>p\<close> of a tracked
  record, \<open>free(p)\<close> succeeds and \<open>resize(p, 0)\<close> returns the null pointer and the very
  state \<open>free(p)\<close> produces, whatever the library would answer. For \<^verbatim>\<open>BasicAllocator\<close>
  and every live block \<open>b\<close> the same holds when the library answers the size-0
  request with a null pointer.
\<close>

theorem resize_zero_is_free:
  "(p \<noteq> NULL \<and> tracked st ps \<and> p - sizeof_DebugHeader \<in> set ps \<longrightarrow>
      (\<exists>st'. free_f DebugAllocator st p = Inr st' \<and>
             realloc_f DebugAllocator st p 0 r = Inr (NULL, st'))) \<and>
   (b \<noteq> NULL \<and> blocks sb b \<noteq> None \<longrightarrow>
      (\<exists>st'. free_f BasicAllocator sb b = Inr st' \<and>
             realloc_f BasicAllocator sb b 0 NULL = Inr (NULL, st')))"
proof (intro conjI impI)
  assume a: "p \<noteq> NULL \<and> tracked st ps \<and> p - sizeof_DebugHeader \<in> set ps"
  then obtain xs ys where ps: "ps = xs @ (p - sizeof_DebugHeader) # ys"
    by (auto simp: in_set_conv_decomp)
  from a have T: "tracked st (xs @ (p - sizeof_DebugHeader) # ys)" and p: "p \<noteq> NULL"
    unfolding ps by blast+
  from debugFree_tracked[OF T, of p] p obtain st' where "debugFree st p = Inr st'"
    by auto
  with p show "\<exists>st'. free_f DebugAllocator st p = Inr st' \<and>
             realloc_f DebugAllocator st p 0 r = Inr (NULL, st')"
    by (simp add: DebugAllocator_def debugRealloc_def)
next
  assume "b \<noteq> NULL \<and> blocks sb b \<noteq> None"
  then show "\<exists>st'. free_f BasicAllocator sb b = Inr st' \<and>
             realloc_f BasicAllocator sb b 0 NULL = Inr (NULL, st')"
    by (auto simp: BasicAllocator_def free_def realloc_def)
qed

theorem resize_zero_is_free_witness:
  "let st = \<lparr>dbgHead = 8192, debugBytesAlive = 30, debugAllocCount = 2,
       hdr = [4096 \<mapsto> \<lparr>size_h = 10, allocNumber = 1, next_h = NULL, prev_h = 8192\<rparr>,
              8192 \<mapsto> \<lparr>size_h = 20, allocNumber = 2, next_h = 4096, prev_h = NULL\<rparr>],
       blocks = [4096 \<mapsto> 42, 8192 \<mapsto> 52], bytes = Map.empty, stderr = []\<rparr>;
       sb = init_state\<lparr>blocks := [4096 \<mapsto> 8]\<rparr>
   in ((8224 :: addr) \<noteq> NULL \<and> tracked st [8192, 4096] \<and>
        8224 - sizeof_DebugHeader \<in> set [8192, 4096]) \<and>
      (\<exists>st'. free_f DebugAllocator st 8224 = Inr st' \<and>
             realloc_f DebugAllocator st 8224 0 NULL = Inr (NULL, st') \<and>
             dbgHead st' = 4096 \<and> debugBytesAlive st' = 10) \<and>
      ((4096 :: addr) \<noteq> NULL \<and> blocks sb 4096 \<noteq> None) \<and>
      (\<exists>st'. free_f BasicAllocator sb 4096 = Inr st' \<and>
             realloc_f BasicAllocator sb 4096 0 NULL = Inr (NULL, st'))"
proof -
  define st where "st = \<lparr>dbgHead = 8192, debugBytesAlive = 30, debugAllocCount = 2,
       hdr = [4096 \<mapsto> \<lparr>size_h = 10, allocNumber = 1, next_h = NULL, prev_h = 8192\<rparr>,
              8192 \<mapsto> \<lparr>size_h = 20, allocNumber = 2, next_h = 4096, prev_h = NULL\<rparr>],
       blocks = [4096 \<mapsto> 42, 8192 \<mapsto> 52], bytes = Map.empty, stderr = []\<rparr>"
  define sb where "sb = init_state\<lparr>blocks := [4096 \<mapsto> 8]\<rparr>"
  have h1: "(8224 :: addr) \<noteq> NULL \<and> tracked st [8192, 4096] \<and>
        8224 - sizeof_DebugHeader \<in> set [8192, 4096]"
    by (auto simp: st_def tracked_def nextf_def prevf_def sizef_def lastp_def
        sizeof_DebugHeader_def)
  have h2: "(4096 :: addr) \<noteq> NULL \<and> blocks sb 4096 \<noteq> None"
    by (simp add: sb_def)
  from resize_zero_is_free[of 8224 st "[8192, 4096]" NULL 4096 sb] h1 h2
  obtain st' st'' where f: "free_f DebugAllocator st 8224 = Inr st'"
    "realloc_f DebugAllocator st 8224 0 NULL = Inr (NULL, st')"
    and g: "free_f BasicAllocator sb 4096 = Inr st''"
    "realloc_f BasicAllocator sb 4096 0 NULL = Inr (NULL, st'')"
    by blast
  from f(1) have "dbgHead st' = 4096 \<and> debugBytesAlive st' = 10"
    by (auto simp: st_def DebugAllocator_def mem_defs)
  with f g h1 h2 show ?thesis
    unfolding Let_def st_def[symmetric] sb_def[symmetric] by blast
qed

text \<open>
  C7. The specification: \<open>resize(empty, n)\<close> is \<open>allocate(n)\<close> for every strategy and every \<open>n\<close>,
  0 included. For \<^verbatim>\<open>SafeAllocator\<close> and \<open>n = 0\<close> the code differs: \<^verbatim>\<open>xalloc(0)\<close> returns
  null without a library call, \<^verbatim>\<open>xrealloc(NULL, 0)\<close> forwards to \<^verbatim>\<open>realloc\<close> and then
  panics on a null answer or returns the block the library handed out.
\<close>

theorem xrealloc_null_zero_differs:
  "realloc_f SafeAllocator init_state NULL 0 NULL = Inl (Panic 37 ''out of memory'')
   \<and> alloc_f SafeAllocator init_state 0 NULL = Inr (NULL, init_state)
   \<and> realloc_f SafeAllocator init_state NULL 0 4096 =
       Inr (4096, init_state\<lparr>blocks := [4096 \<mapsto> 0]\<rparr>)
   \<and> alloc_f SafeAllocator init_state 0 4096 = Inr (NULL, init_state)"
  by (simp add: SafeAllocator_def xrealloc_def realloc_def xalloc_def malloc_def checkPtr_def
      init_state_def)

lemma resize_null_is_alloc:
  "realloc_f DebugAllocator st NULL n r = alloc_f DebugAllocator st n r"
  "realloc_f BasicAllocator st NULL n r = alloc_f BasicAllocator st n r"
  "n \<noteq> 0 \<Longrightarrow> realloc_f SafeAllocator st NULL n r = alloc_f SafeAllocator st n r"
  by (simp_all add: SafeAllocator_def DebugAllocator_def BasicAllocator_def xrealloc_def
      realloc_def xalloc_def debugRealloc_def)

subsection \<open>Invariants of the debug strategy\<close>

text \<open>
  C2. After every sequence of \<^verbatim>\<open>debugAlloc\<close>, \<^verbatim>\<open>debugFree\<close> and \<^verbatim>\<open>debugRealloc\<close> calls
  from program start that returns normally, following \<^verbatim>\<open>next\<close> from \<^verbatim>\<open>dbgHead\<close> ends
  at the null pointer, and \<^verbatim>\<open>debugBytesAlive\<close> equals the sum of the \<^verbatim>\<open>size\<close> fields of
  the records met. Both sides are \<^verbatim>\<open>size_t\<close> values, so the sum is taken in \<^verbatim>\<open>size_t\<close>;
  it is the sum of natural numbers whenever that sum is below \<open>2 ^ 64\<close>. The library is
  assumed to answer an allocation with an address that is not a live block
  (\<open>ops_ok\<close>).
\<close>

theorem debugBytesAlive_is_sum_of_sizes:
  assumes "run init_state xs = Inr (st, ns)" "ops_ok init_state xs"
  shows "\<exists>rs. walk (hdr st) (dbgHead st) = Some rs \<and>
           debugBytesAlive st = sum_list (map (\<lambda>r. size_h (snd r)) rs) \<and>
           (sum_list (map (\<lambda>r. unat (size_h (snd r))) rs) < 2 ^ 64 \<longrightarrow>
              unat (debugBytesAlive st) = sum_list (map (\<lambda>r. unat (size_h (snd r))) rs))"
proof -
  from run_tracked[OF tracked_init assms(2,1)] obtain ps where T: "tracked st ps" ..
  let ?rs = "map (\<lambda>a. (a, the (hdr st a))) ps"
  have w: "walk (hdr st) (dbgHead st) = Some ?rs"
    by (rule tracked_walk[OF T])
  have s: "debugBytesAlive st = sum_list (map (\<lambda>r. size_h (snd r)) ?rs)"
    by (rule tracked_sum[OF T])
  have "unat (debugBytesAlive st) = sum_list (map (\<lambda>r. unat (size_h (snd r))) ?rs)"
    if "sum_list (map (\<lambda>r. unat (size_h (snd r))) ?rs) < 2 ^ 64"
    unfolding s using that by (rule unat_sum_list_small)
  with w s show ?thesis by blast
qed

theorem debugBytesAlive_is_sum_of_sizes_witness:
  "ops_ok init_state [Alloc 10 4096, Alloc 20 8192, Free 4128, Realloc 8224 5 8192] \<and>
   (\<exists>st ns. run init_state [Alloc 10 4096, Alloc 20 8192, Free 4128, Realloc 8224 5 8192]
        = Inr (st, ns) \<and> debugBytesAlive st = 5 \<and>
      (\<exists>rs. walk (hdr st) (dbgHead st) = Some rs \<and>
           debugBytesAlive st = sum_list (map (\<lambda>r. size_h (snd r)) rs) \<and>
           (sum_list (map (\<lambda>r. unat (size_h (snd r))) rs) < 2 ^ 64 \<longrightarrow>
              unat (debugBytesAlive st) = sum_list (map (\<lambda>r. unat (size_h (snd r))) rs))))"
proof -
  let ?xs = "[Alloc 10 4096, Alloc 20 8192, Free 4128, Realloc 8224 5 8192]"
  have o: "ops_ok init_state ?xs"
    by (simp add: mem_defs)
  obtain st ns where r: "run init_state ?xs = Inr (st, ns)" and b: "debugBytesAlive st = 5"
    by (simp add: mem_defs)
  from debugBytesAlive_is_sum_of_sizes[OF r o] r b o show ?thesis
    by blast
qed

text \<open>
  C3. In every state reached from program start by \<^verbatim>\<open>debugAlloc\<close>, \<^verbatim>\<open>debugFree\<close> and
  \<^verbatim>\<open>debugRealloc\<close> calls the list is a valid doubly-linked list, and it is one again
  after any further call that returns: the chain from \<^verbatim>\<open>dbgHead\<close> ends, the head's
  \<^verbatim>\<open>prev\<close> is null, and for every record \<open>r\<close> of the list \<^verbatim>\<open>r.next.prev == r\<close> and
  \<^verbatim>\<open>r.prev.next == r\<close> where the neighbour exists.
\<close>

theorem list_stays_valid:
  assumes "run init_state xs = Inr (st, ns)" "ops_ok init_state xs"
    and "env_ok st x" "step st x = Inr (st', ms)"
  shows "dll_valid st \<and> dll_valid st'"
proof -
  from run_tracked[OF tracked_init assms(2,1)] obtain ps where T: "tracked st ps" ..
  from step_tracked[OF T assms(3,4)] obtain ps' where T': "tracked st' ps'" ..
  from T T' show ?thesis
    by (simp add: tracked_dll_valid)
qed

theorem list_stays_valid_witness:
  "ops_ok init_state [Alloc 10 4096, Alloc 20 8192, Alloc 7 12288, Free 8224] \<and>
   (\<exists>st ns st' ms.
      run init_state [Alloc 10 4096, Alloc 20 8192, Alloc 7 12288, Free 8224] = Inr (st, ns) \<and>
      env_ok st (Realloc 4128 50 16384) \<and>
      step st (Realloc 4128 50 16384) = Inr (st', ms) \<and>
      dbgHead st' = 12288 \<and> dll_valid st \<and> dll_valid st')"
proof -
  let ?xs = "[Alloc 10 4096, Alloc 20 8192, Alloc 7 12288, Free 8224]"
  have o: "ops_ok init_state ?xs"
    by (simp add: mem_defs)
  obtain st ns where r: "run init_state ?xs = Inr (st, ns)"
    and e: "env_ok st (Realloc 4128 50 16384)"
    and s: "\<exists>st' ms. step st (Realloc 4128 50 16384) = Inr (st', ms) \<and> dbgHead st' = 12288"
    by (simp add: mem_defs)
  from s obtain st' ms where s': "step st (Realloc 4128 50 16384) = Inr (st', ms)"
    and b: "dbgHead st' = 12288"
    by blast
  from list_stays_valid[OF r o e s'] r o e s' b show ?thesis
    by blast
qed

text \<open>
  C4, as stated, fails: \<^verbatim>\<open>debugAllocCount\<close> is a \<^verbatim>\<open>size_t\<close> and \<^verbatim>\<open>debugAllocCount += 1\<close>
  wraps around. After \<open>2 ^ 64\<close> rounds of \<^verbatim>\<open>debugAlloc(1)\<close> and \<^verbatim>\<open>debugFree\<close> the counter is
  0 again, and the next record gets the number 1 a second time.
\<close>

theorem sequence_number_reused_counterexample:
  "ops_ok init_state (concat (replicate (2 ^ 64 + 1) [Alloc 1 4096, Free 4128])) \<and>
   (case run init_state (concat (replicate (2 ^ 64 + 1) [Alloc 1 4096, Free 4128])) of
      Inl e \<Rightarrow> False
    | Inr (st, ns) \<Rightarrow> \<not> distinct ns)"
proof -
  have "\<not> distinct (map (\<lambda>i. of_nat (Suc i) :: size_t) [0..<2 ^ 64 + 1])"
    by (rule wrapped_not_distinct) simp
  then show ?thesis
    by (simp only: rounds_init sum.case prod.case simp_thms)
qed

text \<open>
  C4, amended: as long as fewer than \<open>2 ^ 64\<close> records have been created since program
  start, the sequence numbers assigned by the successful \<^verbatim>\<open>debugAlloc\<close> calls (through
  \<^verbatim>\<open>debugRealloc(NULL, n)\<close> too) are 1, 2, 3, ... in order of the calls: strictly
  increasing, hence never reused, whatever was freed in between; the counter is the
  number of records created; and \<^verbatim>\<open>debugFree\<close> never changes the counter.
\<close>

theorem sequence_numbers_increase:
  assumes "run init_state xs = Inr (st, ns)" "length ns < 2 ^ 64"
  shows "ns = map (\<lambda>i. of_nat (Suc i)) [0..<length ns] \<and> sorted_wrt (<) ns \<and> distinct ns \<and>
         debugAllocCount st = of_nat (length ns) \<and>
         (\<forall>s p s'. debugFree s p = Inr s' \<longrightarrow> debugAllocCount s' = debugAllocCount s)"
proof -
  from run_count[OF assms(1)]
  have ns: "ns = map (\<lambda>i. of_nat (Suc i)) [0..<length ns]"
    and c: "debugAllocCount st = of_nat (length ns)"
    by (simp_all add: init_state_def)
  from seq_numbers_sorted[OF assms(2)] ns have s: "sorted_wrt (<) ns"
    by simp
  then have "distinct ns"
    by (simp add: strict_sorted_iff)
  with ns c s debugFree_count show ?thesis
    by blast
qed

theorem sequence_numbers_increase_witness:
  "\<exists>st ns. run init_state [Alloc 10 4096, Free 4128, Alloc 20 4096, Realloc NULL 7 8192,
        Realloc 8224 9 12288, Free 4128] = Inr (st, ns) \<and> ns = [1, 2, 3] \<and>
     length ns < 2 ^ 64 \<and>
     ns = map (\<lambda>i. of_nat (Suc i)) [0..<length ns] \<and> sorted_wrt (<) ns \<and> distinct ns \<and>
     debugAllocCount st = of_nat (length ns) \<and>
     (\<forall>s p s'. debugFree s p = Inr s' \<longrightarrow> debugAllocCount s' = debugAllocCount s)"
proof -
  obtain st ns where r: "run init_state [Alloc 10 4096, Free 4128, Alloc 20 4096,
      Realloc NULL 7 8192, Realloc 8224 9 12288, Free 4128] = Inr (st, ns)"
    and n: "ns = [1, 2, 3]"
    by (simp add: mem_defs)
  from n have l: "length ns < 2 ^ 64" by simp
  from sequence_numbers_increase[OF r l] r l
  have "run init_state [Alloc 10 4096, Free 4128, Alloc 20 4096,
      Realloc NULL 7 8192, Realloc 8224 9 12288, Free 4128] = Inr (st, ns) \<and> ns = [1, 2, 3] \<and>
     length ns < 2 ^ 64 \<and>
     ns = map (\<lambda>i. of_nat (Suc i)) [0..<length ns] \<and> sorted_wrt (<) ns \<and> distinct ns \<and>
     debugAllocCount st = of_nat (length ns) \<and>
     (\<forall>s p s'. debugFree s p = Inr s' \<longrightarrow> debugAllocCount s' = debugAllocCount s)"
    using n by (intro conjI) (elim conjE, assumption)+
  then show ?thesis
    by (intro exI)
qed

text \<open>
  C10. Let the record with header address \<open>old\<close> be tracked (its payload pointer is
  \<open>old + sizeof(DebugHeader)\<close>), let \<open>n \<noteq> 0\<close>, and let \<^verbatim>\<open>debugRealloc\<close> return with the
  library having answered \<open>new\<close>. Then \<^verbatim>\<open>debugAllocCount\<close> is unchanged; the record is now
  at \<open>new\<close> with its \<^verbatim>\<open>allocNumber\<close>, \<^verbatim>\<open>next\<close> and \<^verbatim>\<open>prev\<close> as before and its \<^verbatim>\<open>size\<close> set to
  \<open>n\<close>; every other record is unchanged except that links which led to \<open>old\<close> lead to
  \<open>new\<close>, and so does \<^verbatim>\<open>dbgHead\<close>.
\<close>

theorem debugRealloc_keeps_sequence_number:
  assumes T: "tracked st ps" and o: "old \<in> set ps" "old + sizeof_DebugHeader \<noteq> NULL"
    and n: "n \<noteq> 0"
    and E: "env_ok st (Realloc (old + sizeof_DebugHeader) n new)"
    and R: "debugRealloc st (old + sizeof_DebugHeader) n new = Inr (q, st')"
  shows "q = new + sizeof_DebugHeader \<and>
         debugAllocCount st' = debugAllocCount st \<and>
         (\<exists>d. hdr st old = Some d \<and> hdr st' new = Some (d\<lparr>size_h := n\<rparr>) \<and>
              debugBytesAlive st' = debugBytesAlive st - size_h d + n) \<and>
         (new \<noteq> old \<longrightarrow> hdr st' old = None) \<and>
         (\<forall>a. a \<noteq> old \<and> a \<noteq> new \<longrightarrow> hdr st' a = map_option (redirect old new) (hdr st a)) \<and>
         dbgHead st' = (if dbgHead st = old then new else dbgHead st)"
proof -
  let ?p = "old + sizeof_DebugHeader"
  let ?m = "hdr st"
  from o(1) obtain xs ys where ps: "ps = xs @ old # ys"
    by (auto simp: in_set_conv_decomp)
  note T' = T[unfolded ps]
  obtain d where d: "?m old = Some d" and lk: "linked_ok ?m old d" and on: "old \<noteq> NULL"
    and hb: "blocks st old \<noteq> None"
    and pv: "prev_h d = (if xs = [] then NULL else last xs)"
    by (rule tracked_record[OF T'])
  have sf: "sizef ?m old = size_h d"
    using d by (simp add: sizef_def)
  from T have dom: "dom ?m = set ps" and blk: "dom ?m \<subseteq> dom (blocks st)"
    and nn: "NULL \<notin> set ps"
    unfolding tracked_def by blast+
  from debugRealloc_Inr[OF R o(2) n] have rn: "new \<noteq> NULL" by simp
  from debugRealloc_Inr_nowrap[OF R o(2) n] on
  have w: "sizeof_DebugHeader \<le> sizeof_DebugHeader + n" by simp
  show ?thesis
  proof (cases "new = old")
    case True
    from debugRealloc_tracked_inplace[OF T', of ?p n] o(2) n w R True d sf
    show ?thesis by (auto simp: option.map_ident)
  next
    case False
    with E rn o(2) have fr: "blocks st new = None" by auto
    have mr: "?m new = None"
      using fr blk by (metis domIff subsetD)
    from debugRealloc_tracked_moved[OF T', of ?p n new] o(2) n rn fr w R
    have q: "q = new + sizeof_DebugHeader" and c: "debugAllocCount st' = debugAllocCount st"
      and h: "hdr st' = moved ?m old new n"
      and hd: "dbgHead st' = (if xs = [] then new else dbgHead st)"
      and b: "debugBytesAlive st' = debugBytesAlive st - sizef ?m old + n"
      by auto
    have fr: "hdr st' a = map_option (redirect old new) (?m a)"
      if a: "a \<noteq> old" "a \<noteq> new" for a
    proof (cases "?m a")
      case None
      then have "a \<notin> dom (moved ?m old new n)"
        using a by (simp add: dom_moved[OF lk mr False] domIff)
      with None h show ?thesis by (simp add: domIff)
    next
      case (Some d0)
      with dom nn have "a \<noteq> NULL" by (metis domI)
      from moved_other[OF lk mr False a this, of n] Some
        tracked_neighbours[OF T d Some]
      show ?thesis
        unfolding h by (auto simp: redirect_def)
    qed
    from q c h hd b d sf fr tracked_head_is[OF T'] moved_new[OF lk mr False] moved_old[OF lk mr False] False
    show ?thesis by auto
  qed
qed

theorem debugRealloc_keeps_sequence_number_witness:
  "let st = \<lparr>dbgHead = 8192, debugBytesAlive = 30, debugAllocCount = 2,
       hdr = [4096 \<mapsto> \<lparr>size_h = 10, allocNumber = 1, next_h = NULL, prev_h = 8192\<rparr>,
              8192 \<mapsto> \<lparr>size_h = 20, allocNumber = 2, next_h = 4096, prev_h = NULL\<rparr>],
       blocks = [4096 \<mapsto> 42, 8192 \<mapsto> 52], bytes = Map.empty, stderr = []\<rparr>
   in tracked st [8192, 4096] \<and> 4096 \<in> set [8192, 4096 :: addr] \<and>
      4096 + sizeof_DebugHeader \<noteq> NULL \<and> (50 :: size_t) \<noteq> 0 \<and>
      env_ok st (Realloc (4096 + sizeof_DebugHeader) 50 12288) \<and>
      (\<exists>q st'. debugRealloc st (4096 + sizeof_DebugHeader) 50 12288 = Inr (q, st') \<and>
         q = 12288 + sizeof_DebugHeader \<and>
         debugAllocCount st' = debugAllocCount st \<and>
         (\<exists>d. hdr st 4096 = Some d \<and> hdr st' 12288 = Some (d\<lparr>size_h := 50\<rparr>) \<and>
              debugBytesAlive st' = debugBytesAlive st - size_h d + 50) \<and>
         ((12288 :: addr) \<noteq> 4096 \<longrightarrow> hdr st' 4096 = None) \<and>
         (\<forall>a. a \<noteq> 4096 \<and> a \<noteq> 12288 \<longrightarrow>
              hdr st' a = map_option (redirect 4096 12288) (hdr st a)) \<and>
         dbgHead st' = (if dbgHead st = 4096 then 12288 else dbgHead st))"
proof -
  define st where "st = \<lparr>dbgHead = 8192, debugBytesAlive = 30, debugAllocCount = 2,
       hdr = [4096 \<mapsto> \<lparr>size_h = 10, allocNumber = 1, next_h = NULL, prev_h = 8192\<rparr>,
              8192 \<mapsto> \<lparr>size_h = 20, allocNumber = 2, next_h = 4096, prev_h = NULL\<rparr>],
       blocks = [4096 \<mapsto> 42, 8192 \<mapsto> 52], bytes = Map.empty, stderr = []\<rparr>"
  have T: "tracked st [8192, 4096]"
    by (auto simp: st_def tracked_def nextf_def prevf_def sizef_def lastp_def)
  have o: "4096 \<in> set [8192, 4096 :: addr]" "4096 + sizeof_DebugHeader \<noteq> NULL"
    and n: "(50 :: size_t) \<noteq> 0"
    and E: "env_ok st (Realloc (4096 + sizeof_DebugHeader) 50 12288)"
    by (simp_all add: st_def sizeof_DebugHeader_def)
  obtain q st' where R: "debugRealloc st (4096 + sizeof_DebugHeader) 50 12288 = Inr (q, st')"
    by (simp add: st_def mem_defs)
  from debugRealloc_keeps_sequence_number[OF T o n E R] T o n E R
  show ?thesis
    unfolding Let_def st_def[symmetric] by blast
qed

subsection \<open>String duplication\<close>

text \<open>
  C9. For every non-null character sequence \<open>s\<close> and every starting state: when
  \<^verbatim>\<open>xstrdup(DebugAllocator, s)\<close> returns a buffer, releasing that buffer through
  \<^verbatim>\<open>DebugAllocator.free\<close> succeeds and leaves \<^verbatim>\<open>debugBytesAlive\<close> at the value it had
  before the duplication.
\<close>

theorem xstrdup_free_round_trip:
  assumes "xstrdup DebugAllocator st (Some s) r = Inr (dup, st1)"
  shows "\<exists>st2. free_f DebugAllocator st1 dup = Inr st2 \<and>
           debugBytesAlive st2 = debugBytesAlive st"
proof -
  from assms obtain st0 where a: "debugAlloc st (strlen s + 1) r = Inr (dup, st0)"
    and d: "dup \<noteq> NULL"
    and s1: "st1 = st0\<lparr>bytes := store_chars (bytes st0) dup (c_chars s)\<rparr>"
    by (auto simp: xstrdup_def DebugAllocator_def Let_def split: sum.splits if_splits)
  have "strlen s + 1 \<noteq> 0"
  proof
    assume "strlen s + 1 = 0"
    with a d show False by (simp add: debugAlloc_def)
  qed
  from debugFree_after_debugAlloc[OF a this d] show ?thesis
    unfolding s1 by (simp add: DebugAllocator_def)
qed

theorem xstrdup_free_round_trip_witness:
  "\<exists>dup st1. xstrdup DebugAllocator init_state (Some ''hello'') 4096 = Inr (dup, st1) \<and>
      dup = 4128 \<and> debugBytesAlive st1 = 6 \<and> bytes st1 4129 = Some CHR ''e'' \<and>
      (\<exists>st2. free_f DebugAllocator st1 dup = Inr st2 \<and>
           debugBytesAlive st2 = debugBytesAlive init_state)"
proof -
  obtain dup st1 where x: "xstrdup DebugAllocator init_state (Some ''hello'') 4096 = Inr (dup, st1)"
    and d: "dup = 4128" "debugBytesAlive st1 = 6" "bytes st1 4129 = Some CHR ''e''"
    by (simp add: xstrdup_def strlen_def c_chars_def DebugAllocator_def mem_defs)
  from xstrdup_free_round_trip[OF x] x d show ?thesis
    by blast
qed

subsection \<open>The leak report\<close>

text \<open>
  C8. The specification gives each leak line as \<^verbatim>\<open>Leak: allocation <n> leaked <size> bytes\<close>.
  The format string of the code is \<^verbatim>\<open>"Leak: allocation %zu leaked %zu bytes \n"\<close>: each
  leak line ends in a blank before the line break, unlike the other three lines of the
  report. After \<^verbatim>\<open>allocate(10)\<close>, \<^verbatim>\<open>allocate(20)\<close>, \<^verbatim>\<open>free\<close> of the first and
  \<^verbatim>\<open>resize\<close> of the second to 5 bytes, the report is the text below. (Header, order,
  trailer and the unchanged state are as specified: \<open>debugReportLeaks_tracked\<close>.)
\<close>

theorem leak_line_trailing_blank:
  "case run init_state [Alloc 10 4096, Alloc 20 8192, Free 4128, Realloc 8224 5 8192] of
     Inl e \<Rightarrow> False
   | Inr (st, ns) \<Rightarrow>
       debugReportLeaks st = Some (Inr (st\<lparr>stderr :=
         ''MEMORY LEAKS DETECTED:'' @ [CHR 0x0A] @
         ''Leak: allocation 2 leaked 5 bytes '' @ [CHR 0x0A] @
         ''Total leaked: 5 bytes'' @ [CHR 0x0A]\<rparr>))"
  by (simp add: mem_defs debugReportLeaks_def leak_loop.simps leak_line_def dec.simps)

end
